theory Spec2Isabelle
  imports Main
begin

section \<open>Strings of the annotation engine\<close>

text \<open>
  A JavaScript string is a sequence of code units. The embedding takes \<^typ>\<open>string\<close>, so
  it covers the code units below 256, each \<^typ>\<open>char\<close> standing for the code unit of the
  same number.
\<close>

definition nl :: char where
  "nl = CHR 0x0A"

text \<open>The class \<open>\s\<close> of a pattern (and the characters \<open>trim\<close> removes), below 256.\<close>

definition isSpace :: "char \<Rightarrow> bool" where
  "isSpace c = (c \<in> {CHR 0x09, CHR 0x0A, CHR 0x0B, CHR 0x0C, CHR 0x0D, CHR 0x20, CHR 0xA0})"

text \<open>The class \<open>\d\<close>: the ten ASCII digits.\<close>

definition isDigit :: "char \<Rightarrow> bool" where
  "isDigit c = (c \<in> set ''0123456789'')"

text \<open>The class \<open>[A-Z]\<close>.\<close>

definition isUpper :: "char \<Rightarrow> bool" where
  "isUpper c = (c \<in> set ''ABCDEFGHIJKLMNOPQRSTUVWXYZ'')"

text \<open>\<open>s.startsWith(p)\<close>.\<close>

fun startsWith :: "string \<Rightarrow> string \<Rightarrow> bool" where
  "startsWith s [] = True"
| "startsWith [] (p # ps) = False"
| "startsWith (c # cs) (p # ps) = (c = p \<and> startsWith cs ps)"

text \<open>The rest of \<open>s\<close> behind the literal \<open>p\<close>, when \<open>s\<close> starts with it.\<close>

fun stripPrefix :: "string \<Rightarrow> string \<Rightarrow> string option" where
  "stripPrefix [] s = Some s"
| "stripPrefix (p # ps) [] = None"
| "stripPrefix (p # ps) (c # cs) = (if c = p then stripPrefix ps cs else None)"

text \<open>\<open>s.split("\n")\<close>: never empty, the empty string gives one empty line.\<close>

fun splitLines :: "string \<Rightarrow> string list" where
  "splitLines [] = [[]]"
| "splitLines (c # cs) =
     (if c = nl then [] # splitLines cs
      else (case splitLines cs of
              [] \<Rightarrow> [[c]]
            | l # ls \<Rightarrow> (c # l) # ls))"

text \<open>\<open>lines.join("\n")\<close>.\<close>

fun joinLines :: "string list \<Rightarrow> string" where
  "joinLines [] = []"
| "joinLines [l] = l"
| "joinLines (l # m # ls) = l @ nl # joinLines (m # ls)"

subsection \<open>Numbers\<close>

text \<open>
  A JavaScript number is a double. The numbers of the diff locator come from \<open>parseInt\<close>
  on a run of digits and from \<open>++\<close>, so each is an integer that a double holds, or
  \<open>Infinity\<close>. A double keeps 53 binary digits: an integer below \<open>2 ^ 53\<close>
  (9007199254740992) is held as it is, a larger one is rounded to the nearest integer
  with 53 significant binary digits, a tie going to the even one, and the result is
  \<open>Infinity\<close> from \<open>2 ^ 1024\<close> on. \<open>droppedBits n\<close> is the number of low binary digits
  that the rounding of \<open>n\<close> drops.
\<close>

datatype number = Finite int | Infinity

function droppedBits :: "int \<Rightarrow> nat" where
  "droppedBits n = (if n < 9007199254740992 then 0 else Suc (droppedBits (n div 2)))"
  by pat_completeness auto
termination
  by (relation "measure nat") auto

definition toNumber :: "int \<Rightarrow> number" where
  "toNumber n =
     (if n < 9007199254740992 then Finite n
      else
        (let e = droppedBits n;
             q = n div 2 ^ e;
             r = n mod 2 ^ e;
             q' = (if 2 * r > 2 ^ e \<or> (2 * r = 2 ^ e \<and> odd q) then q + 1 else q)
         in if q' * 2 ^ e \<ge> 2 ^ 1024 then Infinity else Finite (q' * 2 ^ e)))"

text \<open>\<open>x++\<close>: the double nearest to \<open>x + 1\<close>.\<close>

definition increment :: "number \<Rightarrow> number" where
  "increment x = (case x of Finite n \<Rightarrow> toNumber (n + 1) | Infinity \<Rightarrow> Infinity)"

text \<open>
  \<open>parseInt(ds, 10)\<close> on a run of digits: the number nearest to the integer the digits
  write. (ECMAScript lets an implementation read the digits behind the twentieth as
  zeros; the embedding rounds the whole integer, as V8 does.)
\<close>

definition digitValue :: "char \<Rightarrow> int" where
  "digitValue c = of_char c - 48"

definition decimalValue :: "string \<Rightarrow> int" where
  "decimalValue ds = foldl (\<lambda>acc c. 10 * acc + digitValue c) 0 ds"

definition parseInt :: "string \<Rightarrow> number" where
  "parseInt ds = toNumber (decimalValue ds)"

text \<open>The decimal numeral a template literal prints for a number.\<close>

function showNat :: "nat \<Rightarrow> string" where
  "showNat n =
     (if n < 10 then [char_of (48 + n)]
      else showNat (n div 10) @ [char_of (48 + n mod 10)])"
  by pat_completeness auto
termination
  by (relation "measure id") auto

definition showInt :: "int \<Rightarrow> string" where
  "showInt i = (if i < 0 then CHR ''-'' # showNat (nat (- i)) else showNat (nat i))"

section \<open>The diff locator\<close>

subsection \<open>The hunk header pattern\<close>

text \<open>
  \<open>/@@ -\d+,?\d* \+(\d+),?\d* @@/\<close>. Each digit run is followed by a character that is
  no digit, and \<open>,?\d*\<close> by a space, so backtracking finds nothing the greedy reading
  misses: a match takes every digit of a run, then the comma if there is one, then every
  digit behind it. \<open>skipCount\<close> is \<open>,?\d*\<close>; \<open>hunkAt\<close> is a match at the start of the
  text and gives the number captured by the group.
\<close>

definition skipCount :: "string \<Rightarrow> string" where
  "skipCount s =
     (case s of
        [] \<Rightarrow> []
      | c # cs \<Rightarrow> if c = CHR '','' then dropWhile isDigit cs else s)"

definition hunkAt :: "string \<Rightarrow> number option" where
  "hunkAt s =
     (case stripPrefix ''@@ -'' s of
        None \<Rightarrow> None
      | Some s1 \<Rightarrow>
          if takeWhile isDigit s1 = [] then None
          else (case stripPrefix '' +'' (skipCount (dropWhile isDigit s1)) of
                  None \<Rightarrow> None
                | Some s2 \<Rightarrow>
                    if takeWhile isDigit s2 = [] then None
                    else (case stripPrefix '' @@'' (skipCount (dropWhile isDigit s2)) of
                            None \<Rightarrow> None
                          | Some s3 \<Rightarrow> Some (parseInt (takeWhile isDigit s2)))))"

text \<open>\<open>line.match(...)\<close>: the leftmost position where the pattern matches.\<close>

fun hunkMatch :: "string \<Rightarrow> number option" where
  "hunkMatch [] = hunkAt []"
| "hunkMatch (c # cs) =
     (case hunkAt (c # cs) of
        Some n \<Rightarrow> Some n
      | None \<Rightarrow> hunkMatch cs)"

subsection \<open>The map of file changes\<close>

text \<open>
  A JavaScript \<open>Map\<close> keeps its keys in the order of their first insertion; setting a key
  that is present replaces the value where it stands.
\<close>

type_synonym fileLineMap = "(string \<times> number list) list"

fun mapSet :: "fileLineMap \<Rightarrow> string \<Rightarrow> number list \<Rightarrow> fileLineMap" where
  "mapSet [] k v = [(k, v)]"
| "mapSet ((k', v') # m) k v = (if k' = k then (k, v) # m else (k', v') # mapSet m k v)"

definition mapGet :: "fileLineMap \<Rightarrow> string \<Rightarrow> number list option" where
  "mapGet m k = map_of m k"

subsection \<open>The scan\<close>

record scan =
  fileChanges :: fileLineMap
  currentFile :: "string option"
  currentLineNumber :: number

definition initScan :: scan where
  "initScan = \<lparr>fileChanges = [], currentFile = None, currentLineNumber = Finite 0\<rparr>"

text \<open>
  The truthiness of an optional string, as in \<open>currentFile &&\<close>: neither absent nor the
  empty string.
\<close>

definition truthy :: "string option \<Rightarrow> string option" where
  "truthy f = (case f of None \<Rightarrow> None | Some p \<Rightarrow> if p = [] then None else Some p)"

text \<open>The body of the loop over the lines of the diff.\<close>

definition scanLine :: "scan \<Rightarrow> string \<Rightarrow> scan" where
  "scanLine st line =
     (if startsWith line ''+++ b/'' then
        st\<lparr>currentFile := Some (drop 6 line),
           fileChanges := mapSet (fileChanges st) (drop 6 line) []\<rparr>
      else if startsWith line ''@@'' then
        (case hunkMatch line of
           Some n \<Rightarrow> st\<lparr>currentLineNumber := n\<rparr>
         | None \<Rightarrow> st)
      else
        (case truthy (currentFile st) of
           None \<Rightarrow> st
         | Some f \<Rightarrow>
             if startsWith line ''+'' \<and> \<not> startsWith line ''+++'' then
               (let lineNumbers = (case mapGet (fileChanges st) f of
                                     Some ns \<Rightarrow> ns
                                   | None \<Rightarrow> [])
                in st\<lparr>fileChanges :=
                        mapSet (fileChanges st) f (lineNumbers @ [currentLineNumber st]),
                      currentLineNumber := increment (currentLineNumber st)\<rparr>)
             else if \<not> startsWith line ''-'' then
               st\<lparr>currentLineNumber := increment (currentLineNumber st)\<rparr>
             else st))"

definition parseDiff :: "string \<Rightarrow> fileLineMap" where
  "parseDiff diff = fileChanges (foldl scanLine initScan (splitLines diff))"

section \<open>The branch parser\<close>

text \<open>\<open>formatComment\<close>: the template \<open>// ${branchCode}: ${comment}\<close>.\<close>

definition formatComment :: "string \<Rightarrow> string \<Rightarrow> string" where
  "formatComment branchCode comment = ''// '' @ branchCode @ '': '' @ comment"

text \<open>
  \<open>hasExistingComment\<close> builds the pattern \<open>//\s*${branchCode}:\<close> and tests the line.
  The embedding reads the interpolated code as literal characters, which is what the
  pattern does for a code that holds none of the characters of pattern syntax; every code
  \<open>extractBranchCode\<close> returns is one. \<open>afterSpaces p s\<close> is \<open>\s*\<close> followed by the
  literal \<open>p\<close> at the start of \<open>s\<close>, with every number of spaces tried; \<open>commentAt\<close> is a
  match at the start of the text, and the test searches every position.
\<close>

definition patternSyntax :: "char \<Rightarrow> bool" where
  "patternSyntax c = (c = CHR 0x5C \<or> c \<in> set ''^$.*+?()[]{}|'')"

fun afterSpaces :: "string \<Rightarrow> string \<Rightarrow> bool" where
  "afterSpaces p [] = startsWith [] p"
| "afterSpaces p (c # cs) = (startsWith (c # cs) p \<or> (isSpace c \<and> afterSpaces p cs))"

definition commentAt :: "string \<Rightarrow> string \<Rightarrow> bool" where
  "commentAt branchCode s =
     (case stripPrefix ''//'' s of
        None \<Rightarrow> False
      | Some r \<Rightarrow> afterSpaces (branchCode @ '':'') r)"

fun hasExistingComment :: "string \<Rightarrow> string \<Rightarrow> bool" where
  "hasExistingComment [] branchCode = commentAt branchCode []"
| "hasExistingComment (c # cs) branchCode =
     (commentAt branchCode (c # cs) \<or> hasExistingComment cs branchCode)"

text \<open>\<open>BRANCH_CODE_REGEX\<close>, \<open>/FLY[A-Z]-\d{3}/\<close>: a match at the start of the text.\<close>

definition branchCodeAt :: "string \<Rightarrow> string option" where
  "branchCodeAt s =
     (if 8 \<le> length s \<and> take 3 s = ''FLY'' \<and> isUpper (s ! 3) \<and> s ! 4 = CHR ''-''
         \<and> isDigit (s ! 5) \<and> isDigit (s ! 6) \<and> isDigit (s ! 7)
      then Some (take 8 s) else None)"

fun branchCodeMatch :: "string \<Rightarrow> string option" where
  "branchCodeMatch [] = None"
| "branchCodeMatch (c # cs) =
     (case branchCodeAt (c # cs) of
        Some m \<Rightarrow> Some m
      | None \<Rightarrow> branchCodeMatch cs)"

definition isValidBranchCode :: "string \<Rightarrow> bool" where
  "isValidBranchCode code = (branchCodeMatch code \<noteq> None)"

record BranchCodeResult =
  branchCodeOf :: "string option"
  isValid :: bool
  branchName :: string
  errorOf :: "string option"

definition extractBranchCode :: "string \<Rightarrow> BranchCodeResult" where
  "extractBranchCode name =
     (if name = [] \<or> (\<forall>c \<in> set name. isSpace c) then
        \<lparr>branchCodeOf = None, isValid = False, branchName = name,
         errorOf = Some ''Branch name is empty''\<rparr>
      else
        (case branchCodeMatch name of
           None \<Rightarrow>
             \<lparr>branchCodeOf = None, isValid = False, branchName = name,
              errorOf = Some ''No valid branch code found. Expected format: FLY[A-Z]-[0-9]{3}''\<rparr>
         | Some m \<Rightarrow>
             \<lparr>branchCodeOf = Some m, isValid = True, branchName = name, errorOf = None\<rparr>))"

section \<open>The collaborators: version control and the file system\<close>

text \<open>
  The calls of \<open>gitOps\<close> are the effects of the engine. The world holds what they answer
  and the files of the working tree; every call is recorded in the trace. A call that
  throws answers \<open>Inl\<close>.
\<close>

datatype ioError = GitError string | ReadError | WriteError

datatype event =
    GetCurrentBranch
  | GetStagedDiff
  | GetUnstagedDiff
  | ReadFile string
  | WriteFile string

record world =
  branch :: "ioError + string"
  staged :: "ioError + string"
  unstaged :: "ioError + string"
  files :: "string \<rightharpoonup> string"
  readOnly :: "string set"
  trace :: "event list"

definition getCurrentBranch :: "world \<Rightarrow> (ioError + string) \<times> world" where
  "getCurrentBranch w = (branch w, w\<lparr>trace := trace w @ [GetCurrentBranch]\<rparr>)"

definition getStagedDiff :: "world \<Rightarrow> (ioError + string) \<times> world" where
  "getStagedDiff w = (staged w, w\<lparr>trace := trace w @ [GetStagedDiff]\<rparr>)"

definition getUnstagedDiff :: "world \<Rightarrow> (ioError + string) \<times> world" where
  "getUnstagedDiff w = (unstaged w, w\<lparr>trace := trace w @ [GetUnstagedDiff]\<rparr>)"

definition readFile :: "world \<Rightarrow> string \<Rightarrow> (ioError + string) \<times> world" where
  "readFile w filePath =
     (case files w filePath of
        None \<Rightarrow> (Inl ReadError, w\<lparr>trace := trace w @ [ReadFile filePath]\<rparr>)
      | Some content \<Rightarrow> (Inr content, w\<lparr>trace := trace w @ [ReadFile filePath]\<rparr>))"

definition writeFile :: "world \<Rightarrow> string \<Rightarrow> string \<Rightarrow> (ioError + unit) \<times> world" where
  "writeFile w filePath content =
     (if filePath \<in> readOnly w then
        (Inl WriteError, w\<lparr>trace := trace w @ [WriteFile filePath]\<rparr>)
      else
        (Inr (), w\<lparr>files := (files w)(filePath \<mapsto> content),
                   trace := trace w @ [WriteFile filePath]\<rparr>))"

section \<open>The annotation engine\<close>

text \<open>\<open>lines.splice(targetIndex, 0, x)\<close>.\<close>

definition spliceAt :: "string list \<Rightarrow> nat \<Rightarrow> string \<Rightarrow> string list" where
  "spliceAt ls i x = take i ls @ [x] @ drop i ls"

text \<open>
  \<open>addCommentToFile\<close>: every exception inside is caught and gives \<open>false\<close>. The indentation
  is the match of \<open>/^(\s*)/\<close>, the leading run of spaces of the target line. The line
  number is an integer here; a number with a fraction is outside the embedding.
\<close>

definition addCommentToFile ::
    "world \<Rightarrow> string \<Rightarrow> int \<Rightarrow> string \<Rightarrow> string \<Rightarrow> bool \<times> world" where
  "addCommentToFile w filePath lineNumber comment branchCode =
     (case readFile w filePath of
        (Inl e, w1) \<Rightarrow> (False, w1)
      | (Inr content, w1) \<Rightarrow>
          (let lines = splitLines content in
           if lineNumber < 1 \<or> lineNumber > int (length lines) then (False, w1)
           else
             (let targetIndex = nat (lineNumber - 1);
                  targetLine = lines ! targetIndex
              in if hasExistingComment targetLine branchCode then (False, w1)
                 else
                   (let indent = takeWhile isSpace targetLine;
                        formattedComment = indent @ formatComment branchCode comment
                    in (case writeFile w1 filePath
                               (joinLines (spliceAt lines targetIndex formattedComment)) of
                          (Inl e, w2) \<Rightarrow> (False, w2)
                        | (Inr u, w2) \<Rightarrow> (True, w2))))))"

text \<open>
  The call of \<open>addCommentToFile\<close> with a line number of the diff locator. With
  \<open>Infinity\<close>, which is above every length, the call reads the file and answers \<open>false\<close>
  at the validation of the line number (or in the \<open>catch\<close>, when the read fails).
\<close>

definition addCommentAt ::
    "world \<Rightarrow> string \<Rightarrow> number \<Rightarrow> string \<Rightarrow> string \<Rightarrow> bool \<times> world" where
  "addCommentAt w filePath lineNumber comment branchCode =
     (case lineNumber of
        Finite n \<Rightarrow> addCommentToFile w filePath n comment branchCode
      | Infinity \<Rightarrow> (case readFile w filePath of (r, w1) \<Rightarrow> (False, w1)))"

text \<open>The body of the loop of \<open>addCommentsToDiff\<close> over the entries of the map.\<close>

definition annotateEntry ::
    "string \<Rightarrow> string \<Rightarrow> string list \<times> world \<Rightarrow> string \<times> number list \<Rightarrow> string list \<times> world" where
  "annotateEntry comment branchCode acc entry =
     (case acc of (modifiedFiles, w) \<Rightarrow>
      case entry of (filePath, lineNumbers) \<Rightarrow>
        if length lineNumbers > 0 then
          (case addCommentAt w filePath (lineNumbers ! 0) comment branchCode of
             (ok, w') \<Rightarrow> (if ok then modifiedFiles @ [filePath] else modifiedFiles, w'))
        else (modifiedFiles, w))"

definition addCommentsToDiff ::
    "world \<Rightarrow> string \<Rightarrow> string \<Rightarrow> string \<Rightarrow> string list \<times> world" where
  "addCommentsToDiff w diff comment branchCode =
     foldl (annotateEntry comment branchCode) ([], w) (parseDiff diff)"

datatype source = Staged | Unstaged | File

record AddCommentsInput =
  comment :: string
  source :: "source option"
  filePath :: "string option"
  lineNumber :: "int option"

record AddCommentsResult =
  success :: bool
  message :: string
  branchCode :: "string option"
  filesModified :: "string list option"
  error :: "string option"

definition sourceName :: "source \<Rightarrow> string" where
  "sourceName s = (case s of Staged \<Rightarrow> ''staged'' | Unstaged \<Rightarrow> ''unstaged'' | File \<Rightarrow> ''file'')"

definition errorMessage :: "ioError \<Rightarrow> string" where
  "errorMessage e =
     (case e of GitError m \<Rightarrow> m | ReadError \<Rightarrow> ''read failed'' | WriteError \<Rightarrow> ''write failed'')"

text \<open>The result of the outer \<open>catch\<close>.\<close>

definition caught :: "ioError \<Rightarrow> AddCommentsResult" where
  "caught e =
     \<lparr>success = False, message = ''Error adding comments'', branchCode = None,
      filesModified = None, error = Some (errorMessage e)\<rparr>"

text \<open>
  \<open>addComments\<close>. The tests \<open>!branchResult.branchCode\<close>, \<open>input.filePath\<close> and
  \<open>!input.lineNumber\<close> are tests of truthiness: an absent or empty string and an absent or
  zero line number fail them.
\<close>

definition addComments :: "world \<Rightarrow> AddCommentsInput \<Rightarrow> AddCommentsResult \<times> world" where
  "addComments w input =
     (case getCurrentBranch w of
        (Inl e, w1) \<Rightarrow> (caught e, w1)
      | (Inr name, w1) \<Rightarrow>
          (let branchResult = extractBranchCode name in
           case (if isValid branchResult then truthy (branchCodeOf branchResult) else None) of
             None \<Rightarrow>
               (\<lparr>success = False, message = ''Failed to extract branch code'',
                 branchCode = None, filesModified = None,
                 error = errorOf branchResult\<rparr>, w1)
           | Some code \<Rightarrow>
               (let src = (case source input of None \<Rightarrow> Staged | Some s \<Rightarrow> s) in
                case (if src = File then truthy (filePath input) else None) of
                  Some path \<Rightarrow>
                    (case lineNumber input of
                       None \<Rightarrow>
                         (\<lparr>success = False,
                           message = ''Line number required when specifying a file'',
                           branchCode = None, filesModified = None,
                           error = Some ''Missing lineNumber parameter''\<rparr>, w1)
                     | Some n \<Rightarrow>
                         if n = 0 then
                           (\<lparr>success = False,
                             message = ''Line number required when specifying a file'',
                             branchCode = None, filesModified = None,
                             error = Some ''Missing lineNumber parameter''\<rparr>, w1)
                         else
                           (case addCommentToFile w1 path n (comment input) code of
                              (ok, w2) \<Rightarrow>
                                (\<lparr>success = ok,
                                  message =
                                    (if ok then ''Comment added to '' @ path @ '' at line '' @ showInt n
                                     else ''Failed to add comment (may already exist or invalid line number)''),
                                  branchCode = Some code,
                                  filesModified = Some (if ok then [path] else []),
                                  error = None\<rparr>, w2)))
                | None \<Rightarrow>
                    (case (if src = Staged then getStagedDiff w1 else getUnstagedDiff w1) of
                       (Inl e, w2) \<Rightarrow> (caught e, w2)
                     | (Inr diff, w2) \<Rightarrow>
                         if diff = [] \<or> (\<forall>c \<in> set diff. isSpace c) then
                           (\<lparr>success = False,
                             message = ''No '' @ sourceName src @ '' changes found'',
                             branchCode = Some code, filesModified = None,
                             error = None\<rparr>, w2)
                         else
                           (case addCommentsToDiff w2 diff (comment input) code of
                              (modified, w3) \<Rightarrow>
                                (\<lparr>success = length modified > 0,
                                  message =
                                    (if length modified > 0
                                     then ''Comments added to '' @ showNat (length modified) @ '' file(s)''
                                     else ''No comments were added (may already exist or no valid lines found)''),
                                  branchCode = Some code,
                                  filesModified = Some modified,
                                  error = None\<rparr>, w3))))))"

section \<open>Predicates of the statements\<close>

text \<open>A tag the pattern of \<open>hasExistingComment\<close> reads literally, and that stays on one line.\<close>

definition plainTag :: "string \<Rightarrow> bool" where
  "plainTag t = (\<forall>c \<in> set t. \<not> patternSyntax c \<and> c \<noteq> nl)"

text \<open>A string that is one match of \<open>BRANCH_CODE_REGEX\<close> and nothing more.\<close>

definition isBranchCode :: "string \<Rightarrow> bool" where
  "isBranchCode code = (branchCodeAt code = Some code)"

text \<open>The paths read, in the order of the reads.\<close>

fun readsOf :: "event list \<Rightarrow> string list" where
  "readsOf [] = []"
| "readsOf (ReadFile p # es) = p # readsOf es"
| "readsOf (e # es) = readsOf es"

text \<open>\<open>new\<close> is \<open>old\<close> with one comment line of tag \<open>t\<close> and text \<open>c\<close> put in front of a line.\<close>

definition annotated :: "string \<Rightarrow> string \<Rightarrow> string option \<Rightarrow> string option \<Rightarrow> bool" where
  "annotated t c old new =
     (case old of
        None \<Rightarrow> False
      | Some content \<Rightarrow>
          (\<exists>k < length (splitLines content).
             new = Some (joinLines (spliceAt (splitLines content) k
                     (takeWhile isSpace (splitLines content ! k) @ formatComment t c)))))"

text \<open>The modified files and the tree of the batch after the first \<open>i\<close> entries of the map.\<close>

definition batchAfter ::
    "world \<Rightarrow> string \<Rightarrow> string \<Rightarrow> fileLineMap \<Rightarrow> nat \<Rightarrow> string list \<times> world" where
  "batchAfter w c t es i = foldl (annotateEntry c t) ([], w) (take i es)"

















section \<open>Example worlds\<close>

text \<open>A working tree on a feature branch, with one source file.\<close>

definition appWorld :: world where
  "appWorld =
     \<lparr>branch = Inr ''feature/FLYF-228-login'',
      staged = Inr [],
      unstaged = Inr [],
      files = [''src/app.js'' \<mapsto> ''function f() {\<newline>    return x;\<newline>}''],
      readOnly = {},
      trace = []\<rparr>"

definition appInput :: AddCommentsInput where
  "appInput =
     \<lparr>comment = ''checked'', source = Some File, filePath = Some ''src/app.js'',
      lineNumber = Some 2\<rparr>"

text \<open>A file whose first line already carries the tagged comment.\<close>

definition taggedWorld :: world where
  "taggedWorld =
     \<lparr>branch = Inr ''feature/FLYF-228-login'',
      staged = Inr [],
      unstaged = Inr [],
      files = [''a.js'' \<mapsto> ''// FLYF-228: note\<newline>x = 1''],
      readOnly = {},
      trace = []\<rparr>"

text \<open>A working tree with a Python file and a JavaScript file of the same content.\<close>

definition mixedWorld :: world where
  "mixedWorld =
     \<lparr>branch = Inr ''feature/FLYF-228-login'',
      staged = Inr [],
      unstaged = Inr [],
      files = [''tool.py'' \<mapsto> ''def f():\<newline>    return 1'',
               ''tool.js'' \<mapsto> ''def f():\<newline>    return 1''],
      readOnly = {},
      trace = []\<rparr>"

text \<open>
  A working tree whose diff touches \<open>a.js\<close> and then \<open>b.js\<close>: the first added line of
  \<open>a.js\<close> already carries the tagged comment, the first added line of \<open>b.js\<close> does not.
\<close>

definition twoFileDiff :: string where
  "twoFileDiff =
     ''+++ b/a.js\<newline>@@ -1,1 +1,2 @@\<newline>+// FLYF-228: checked\<newline> x = 1\<newline>+++ b/b.js\<newline>@@ -1,2 +1,3 @@\<newline> first\<newline>+second\<newline> third''"

definition batchWorld :: world where
  "batchWorld =
     \<lparr>branch = Inr ''feature/FLYF-228-login'',
      staged = Inr twoFileDiff,
      unstaged = Inr twoFileDiff,
      files = [''a.js'' \<mapsto> ''// FLYF-228: checked\<newline>x = 1'',
               ''b.js'' \<mapsto> ''first\<newline>second\<newline>third''],
      readOnly = {},
      trace = []\<rparr>"

definition batchInput :: AddCommentsInput where
  "batchInput = \<lparr>comment = ''checked'', source = Some Staged, filePath = None, lineNumber = None\<rparr>"

text \<open>A request for a file that names no file.\<close>

definition noPathInput :: AddCommentsInput where
  "noPathInput = \<lparr>comment = ''checked'', source = Some File, filePath = None, lineNumber = Some 2\<rparr>"

text \<open>A working tree on a branch without a branch code.\<close>

definition mainWorld :: world where
  "mainWorld = batchWorld\<lparr>branch := Inr ''main''\<rparr>"






section \<open>Lines and strings\<close>

lemma splitLines_nonempty: "splitLines s \<noteq> []"
  by (induction s) (auto split: list.splits)

lemma splitLines_append_nl: "splitLines (a @ nl # b) = splitLines a @ splitLines b"
  by (induction a) (auto split: list.splits simp: splitLines_nonempty)

lemma splitLines_no_nl: "nl \<notin> set s \<Longrightarrow> splitLines s = [s]"
  by (induction s) (auto split: list.splits)

lemma joinLines_Cons: "ls \<noteq> [] \<Longrightarrow> joinLines (l # ls) = l @ nl # joinLines ls"
  by (cases ls) auto

lemma splitLines_joinLines: "ls \<noteq> [] \<Longrightarrow> splitLines (joinLines ls) = concat (map splitLines ls)"
proof (induction ls rule: joinLines.induct)
  case (3 l m ls)
  then show ?case by (simp add: splitLines_append_nl)
qed auto

lemma joinLines_Cons_Cons: "joinLines ((c # l) # ls) = c # joinLines (l # ls)"
  by (cases ls) auto

lemma joinLines_splitLines: "joinLines (splitLines s) = s"
proof (induction s)
  case (Cons c cs)
  then show ?case
    by (cases "splitLines cs") (auto simp: splitLines_nonempty joinLines_Cons joinLines_Cons_Cons)
qed simp

lemma splitLines_lines_no_nl: "l \<in> set (splitLines s) \<Longrightarrow> nl \<notin> set l"
  by (induction s arbitrary: l) (auto split: list.splits if_splits)

lemma splitLines_hd: "hd (splitLines s) = takeWhile (\<lambda>c. c \<noteq> nl) s"
  by (induction s) (auto split: list.splits simp: splitLines_nonempty)

lemma commentAt_search: "commentAt t b \<Longrightarrow> hasExistingComment (a @ b) t"
proof (induction a)
  case Nil
  then show ?case by (cases b) auto
qed auto

lemma startsWith_append: "startsWith (p @ r) p"
  by (induction p) auto

lemma afterSpaces_startsWith: "startsWith s p \<Longrightarrow> afterSpaces p s"
  by (cases s) auto

lemma commentAt_formatted: "commentAt t (''// '' @ t @ '': '' @ r)"
  using afterSpaces_startsWith[OF startsWith_append[of "t @ '':''" "CHR '' '' # r"]]
  by (simp add: commentAt_def isSpace_def)

lemma hasExistingComment_formatted:
  "hasExistingComment (ind @ formatComment t c') t"
  unfolding formatComment_def by (rule commentAt_search) (rule commentAt_formatted)

lemma concat_splitLines_lines:
  "(\<forall>l \<in> set ls. nl \<notin> set l) \<Longrightarrow> concat (map splitLines ls) = ls"
  by (induction ls) (auto simp: splitLines_no_nl)

lemma splitLines_idem: "concat (map splitLines (splitLines s)) = splitLines s"
  by (rule concat_splitLines_lines) (auto dest: splitLines_lines_no_nl)

lemma splitLines_splice:
  "splitLines (joinLines (spliceAt (splitLines s) k x)) =
     take k (splitLines s) @ splitLines x @ drop k (splitLines s)"
proof -
  have ne: "spliceAt (splitLines s) k x \<noteq> []" by (simp add: spliceAt_def)
  have a: "concat (map splitLines (take k (splitLines s))) = take k (splitLines s)"
    by (rule concat_splitLines_lines) (auto dest: splitLines_lines_no_nl in_set_takeD)
  have b: "concat (map splitLines (drop k (splitLines s))) = drop k (splitLines s)"
    by (rule concat_splitLines_lines) (auto dest: splitLines_lines_no_nl in_set_dropD)
  show ?thesis
    unfolding splitLines_joinLines[OF ne] by (simp add: spliceAt_def a b)
qed

lemma addCommentToFile_eq:
  "addCommentToFile w p n c t =
     (case files w p of
        None \<Rightarrow> (False, w\<lparr>trace := trace w @ [ReadFile p]\<rparr>)
      | Some content \<Rightarrow>
          if n < 1 \<or> int (length (splitLines content)) < n
             \<or> hasExistingComment (splitLines content ! nat (n - 1)) t
          then (False, w\<lparr>trace := trace w @ [ReadFile p]\<rparr>)
          else if p \<in> readOnly w
          then (False, w\<lparr>trace := trace w @ [ReadFile p, WriteFile p]\<rparr>)
          else (True, w\<lparr>files := (files w)(p \<mapsto> joinLines (spliceAt (splitLines content) (nat (n - 1))
                            (takeWhile isSpace (splitLines content ! nat (n - 1)) @ formatComment t c))),
                        trace := trace w @ [ReadFile p, WriteFile p]\<rparr>))"
  by (simp add: addCommentToFile_def readFile_def writeFile_def Let_def split: option.splits)

lemma takeWhile_isSpace_no_nl: "nl \<notin> set l \<Longrightarrow> nl \<notin> set (takeWhile isSpace l)"
  by (auto dest: set_takeWhileD)

lemma plainTag_no_nl: "plainTag t \<Longrightarrow> nl \<notin> set t"
  by (auto simp: plainTag_def)

lemma takeWhile_until_nl:
  "nl \<notin> set a \<Longrightarrow> takeWhile (\<lambda>x. x \<noteq> nl) (a @ b) = a @ takeWhile (\<lambda>x. x \<noteq> nl) b"
  by (induction a) auto

lemma first_line_formatted:
  assumes "nl \<notin> set ind" and "nl \<notin> set t"
  shows "hd (splitLines (ind @ formatComment t c)) = ind @ formatComment t (takeWhile (\<lambda>x. x \<noteq> nl) c)"
proof -
  have "nl \<notin> set (ind @ ''// '' @ t @ '': '')"
    using assms by (simp add: nl_def)
  from takeWhile_until_nl[OF this, of c] show ?thesis
    by (simp add: splitLines_hd formatComment_def)
qed

lemma inserted_is_duplicate:
  assumes klt: "k < length (splitLines content)"
    and tag: "plainTag t"
    and new: "new = joinLines (spliceAt (splitLines content) k
                   (takeWhile isSpace (splitLines content ! k) @ formatComment t c))"
  shows "hasExistingComment (splitLines new ! k) t"
    and "length (splitLines content) < length (splitLines new)"
proof -
  define ls where "ls = splitLines content"
  define ind where "ind = takeWhile isSpace (ls ! k)"
  have "ls ! k \<in> set ls" using klt by (simp add: ls_def)
  then have "nl \<notin> set (ls ! k)" unfolding ls_def by (rule splitLines_lines_no_nl)
  then have ind_nl: "nl \<notin> set ind" unfolding ind_def by (rule takeWhile_isSpace_no_nl)
  have sp: "splitLines new = take k ls @ splitLines (ind @ formatComment t c) @ drop k ls"
    unfolding new ls_def ind_def by (rule splitLines_splice)
  have len: "length (take k ls) = k" using klt by (simp add: ls_def)
  have target: "splitLines new ! k = hd (splitLines (ind @ formatComment t c))"
    unfolding sp using len splitLines_nonempty[of "ind @ formatComment t c"]
    by (simp add: nth_append hd_conv_nth)
  show "hasExistingComment (splitLines new ! k) t"
    unfolding target first_line_formatted[OF ind_nl plainTag_no_nl[OF tag]]
    by (rule hasExistingComment_formatted)
  have "0 < length (splitLines (ind @ formatComment t c))"
    using splitLines_nonempty[of "ind @ formatComment t c"] by simp
  then show "length (splitLines content) < length (splitLines new)"
    unfolding sp using klt by (simp add: ls_def)
qed

lemma list8:
  assumes "length m = 8"
  obtains a b c d e f g h where "m = [a, b, c, d, e, f, g, h]"
proof -
  from assms have "length m = Suc (Suc (Suc (Suc (Suc (Suc (Suc (Suc 0)))))))" by simp
  then have "\<exists>a b c d e f g h. m = [a, b, c, d, e, f, g, h]"
    by (auto simp: length_Suc_conv)
  then show ?thesis using that by blast
qed

lemma branchCodeAt_shape:
  assumes "branchCodeAt s = Some m"
  shows "isBranchCode m"
proof -
  from assms have ok: "8 \<le> length s" "take 3 s = ''FLY''" "isUpper (s ! 3)" "s ! 4 = CHR ''-''"
    "isDigit (s ! 5)" "isDigit (s ! 6)" "isDigit (s ! 7)" and m: "m = take 8 s"
    by (auto simp: branchCodeAt_def split: if_splits)
  have "take 3 m = take 3 s" unfolding m by (simp add: min_def)
  with ok m show ?thesis
    by (simp add: isBranchCode_def branchCodeAt_def min_def)
qed

lemma branchCodeMatch_shape: "branchCodeMatch s = Some m \<Longrightarrow> isBranchCode m"
  by (induction s) (auto split: option.splits dest: branchCodeAt_shape)

lemma isUpper_plain: "isUpper c \<Longrightarrow> \<not> patternSyntax c \<and> c \<noteq> nl"
  by (auto simp: isUpper_def patternSyntax_def nl_def)

lemma isDigit_plain: "isDigit c \<Longrightarrow> \<not> patternSyntax c \<and> c \<noteq> nl"
  by (auto simp: isDigit_def patternSyntax_def nl_def)

lemma isBranchCode_chars:
  assumes "isBranchCode m"
  shows "\<exists>u d1 d2 d3. m = ''FLY'' @ [u] @ ''-'' @ [d1, d2, d3]
           \<and> isUpper u \<and> isDigit d1 \<and> isDigit d2 \<and> isDigit d3"
proof -
  from assms have len: "length m = 8"
    by (auto simp: isBranchCode_def branchCodeAt_def split: if_splits)
  then obtain a b c d e f g h where m: "m = [a, b, c, d, e, f, g, h]" by (rule list8)
  from assms show ?thesis
    unfolding m isBranchCode_def branchCodeAt_def
    by (simp split: if_splits)
qed

lemma isBranchCode_plain:
  assumes "isBranchCode m"
  shows "plainTag m"
proof -
  from isBranchCode_chars[OF assms] obtain u d1 d2 d3 where
    m: "m = ''FLY'' @ [u] @ ''-'' @ [d1, d2, d3]"
    and c: "isUpper u" "isDigit d1" "isDigit d2" "isDigit d3" by blast
  have "\<not> patternSyntax (CHR ''F'') \<and> \<not> patternSyntax (CHR ''L'') \<and> \<not> patternSyntax (CHR ''Y'')
        \<and> \<not> patternSyntax (CHR ''-'')"
    by (simp add: patternSyntax_def)
  with isUpper_plain[OF c(1)] isDigit_plain[OF c(2)] isDigit_plain[OF c(3)]
    isDigit_plain[OF c(4)]
  show ?thesis unfolding m plainTag_def by (simp add: nl_def)
qed

lemma isBranchCode_nonempty: "isBranchCode m \<Longrightarrow> m \<noteq> []"
  by (auto simp: isBranchCode_def branchCodeAt_def)

lemma extractBranchCode_Some:
  assumes "branchCodeOf (extractBranchCode name) = Some t"
  shows "isValid (extractBranchCode name) \<and> isBranchCode t"
  using assms
  by (auto simp: extractBranchCode_def split: if_splits option.splits dest: branchCodeMatch_shape)

section \<open>Idempotence of the annotation\<close>

lemma addComments_file_mode:
  assumes "branch w = Inr name"
    and "branchCodeOf (extractBranchCode name) = Some t"
    and "source input = Some File"
    and "filePath input = Some p" and "p \<noteq> []"
    and "lineNumber input = Some n" and "n \<noteq> 0"
  shows "addComments w input =
           (case addCommentToFile (w\<lparr>trace := trace w @ [GetCurrentBranch]\<rparr>) p n (comment input) t of
              (ok, w2) \<Rightarrow>
                (\<lparr>success = ok,
                  message =
                    (if ok then ''Comment added to '' @ p @ '' at line '' @ showInt n
                     else ''Failed to add comment (may already exist or invalid line number)''),
                  branchCode = Some t,
                  filesModified = Some (if ok then [p] else []),
                  error = None\<rparr>, w2))"
  using assms extractBranchCode_Some[OF assms(2)]
  by (simp add: addComments_def getCurrentBranch_def truthy_def Let_def isBranchCode_nonempty)

text \<open>
  C1 (as amended). On a branch that carries a branch code, for a file that can be read and
  written, a valid line number and a target line that does not yet carry a comment with
  the code: the first call of \<open>addComments\<close> for that file and line inserts the comment
  and reports the file in \<open>filesModified\<close>; the second call with the same input on the
  resulting tree returns no success, reports no file modified and leaves every file as
  the first call left it. \<open>addCommentToFile\<close> answers \<open>true\<close> the first time and
  \<open>false\<close> the second time.
\<close>

theorem annotation_idempotent:
  assumes br: "branch w = Inr name"
    and code: "branchCodeOf (extractBranchCode name) = Some t"
    and inp: "input = \<lparr>comment = c, source = Some File, filePath = Some p, lineNumber = Some n\<rparr>"
    and p: "p \<noteq> []"
    and rd: "files w p = Some content"
    and wr: "p \<notin> readOnly w"
    and lo: "1 \<le> n"
    and hi: "n \<le> int (length (splitLines content))"
    and fresh: "\<not> hasExistingComment (splitLines content ! nat (n - 1)) t"
  shows "\<exists>r1 w1 r2 w2.
           addComments w input = (r1, w1) \<and> success r1 \<and> filesModified r1 = Some [p]
         \<and> files w1 p = Some (joinLines (spliceAt (splitLines content) (nat (n - 1))
               (takeWhile isSpace (splitLines content ! nat (n - 1)) @ formatComment t c)))
         \<and> addComments w1 input = (r2, w2) \<and> \<not> success r2 \<and> filesModified r2 = Some []
         \<and> files w2 = files w1
         \<and> fst (addCommentToFile w p n c t) \<and> \<not> fst (addCommentToFile w1 p n c t)"
proof -
  define k where "k = nat (n - 1)"
  define new where "new = joinLines (spliceAt (splitLines content) k
                            (takeWhile isSpace (splitLines content ! k) @ formatComment t c))"
  have klt: "k < length (splitLines content)" using lo hi by (simp add: k_def)
  have tag: "plainTag t"
    using extractBranchCode_Some[OF code] by (simp add: isBranchCode_plain)
  have dup: "hasExistingComment (splitLines new ! k) t"
    and len: "length (splitLines content) < length (splitLines new)"
    by (rule inserted_is_duplicate[OF klt tag new_def])+
  have n0: "n \<noteq> 0" using lo by simp
  have hi': "n \<le> int (length (splitLines new))" using hi len by simp
  define w1 where "w1 = w\<lparr>files := (files w)(p \<mapsto> new),
                           trace := trace w @ [GetCurrentBranch, ReadFile p, WriteFile p]\<rparr>"
  have first: "addCommentToFile (w\<lparr>trace := trace w @ [GetCurrentBranch]\<rparr>) p n c t = (True, w1)"
    using rd wr lo hi fresh
    by (simp add: addCommentToFile_eq w1_def new_def k_def)
  have first': "fst (addCommentToFile w p n c t)"
    using rd wr lo hi fresh by (simp add: addCommentToFile_eq)
  have second: "addCommentToFile (w1\<lparr>trace := trace w1 @ [GetCurrentBranch]\<rparr>) p n c t
                  = (False, w1\<lparr>trace := trace w1 @ [GetCurrentBranch, ReadFile p]\<rparr>)"
    using dup lo hi' by (simp add: addCommentToFile_eq w1_def k_def)
  have second': "\<not> fst (addCommentToFile w1 p n c t)"
    using dup lo hi' by (simp add: addCommentToFile_eq w1_def k_def)
  have br1: "branch w1 = Inr name" using br by (simp add: w1_def)
  define r1 where "r1 = \<lparr>success = True,
        message = ''Comment added to '' @ p @ '' at line '' @ showInt n,
        branchCode = Some t, filesModified = Some [p], error = None\<rparr>"
  define r2 where "r2 = \<lparr>success = False,
        message = ''Failed to add comment (may already exist or invalid line number)'',
        branchCode = Some t, filesModified = Some [], error = None\<rparr>"
  define w2 where "w2 = w1\<lparr>trace := trace w1 @ [GetCurrentBranch, ReadFile p]\<rparr>"
  have a1: "addComments w input = (r1, w1)"
    using addComments_file_mode[OF br code, of input p n] p n0 first by (simp add: inp r1_def)
  have a2: "addComments w1 input = (r2, w2)"
    using addComments_file_mode[OF br1 code, of input p n] p n0 second
    by (simp add: inp r2_def w2_def)
  have "addComments w input = (r1, w1) \<and> success r1 \<and> filesModified r1 = Some [p]
         \<and> files w1 p = Some (joinLines (spliceAt (splitLines content) (nat (n - 1))
               (takeWhile isSpace (splitLines content ! nat (n - 1)) @ formatComment t c)))
         \<and> addComments w1 input = (r2, w2) \<and> \<not> success r2 \<and> filesModified r2 = Some []
         \<and> files w2 = files w1
         \<and> fst (addCommentToFile w p n c t) \<and> \<not> fst (addCommentToFile w1 p n c t)"
    using a1 a2 first' second' by (simp add: r1_def r2_def w2_def w1_def new_def k_def)
  then show ?thesis by blast
qed

theorem annotation_idempotent_witness:
  "branch appWorld = Inr ''feature/FLYF-228-login''
   \<and> branchCodeOf (extractBranchCode ''feature/FLYF-228-login'') = Some ''FLYF-228''
   \<and> files appWorld ''src/app.js'' = Some ''function f() {\<newline>    return x;\<newline>}''
   \<and> ''src/app.js'' \<notin> readOnly appWorld
   \<and> (2::int) \<le> int (length (splitLines ''function f() {\<newline>    return x;\<newline>}''))
   \<and> \<not> hasExistingComment (splitLines ''function f() {\<newline>    return x;\<newline>}'' ! nat (2 - 1)) ''FLYF-228''
   \<and> (\<exists>r1 w1 r2 w2.
         addComments appWorld appInput = (r1, w1) \<and> success r1
       \<and> filesModified r1 = Some [''src/app.js'']
       \<and> files w1 ''src/app.js''
           = Some ''function f() {\<newline>    // FLYF-228: checked\<newline>    return x;\<newline>}''
       \<and> addComments w1 appInput = (r2, w2) \<and> \<not> success r2 \<and> filesModified r2 = Some []
       \<and> files w2 = files w1)"
proof -
  let ?content = "''function f() {\<newline>    return x;\<newline>}''"
  have h1: "branch appWorld = Inr ''feature/FLYF-228-login''" by (simp add: appWorld_def)
  have h2: "branchCodeOf (extractBranchCode ''feature/FLYF-228-login'') = Some ''FLYF-228''"
    by code_simp
  have h3: "files appWorld ''src/app.js'' = Some ?content" by (simp add: appWorld_def)
  have h4: "''src/app.js'' \<notin> readOnly appWorld" by (simp add: appWorld_def)
  have h5: "''src/app.js'' \<noteq> []" by simp
  have h6: "(1::int) \<le> 2" by simp
  have h7: "(2::int) \<le> int (length (splitLines ?content))" by code_simp
  have h8: "\<not> hasExistingComment (splitLines ?content ! nat (2 - 1)) ''FLYF-228''" by code_simp
  have e: "joinLines (spliceAt (splitLines ?content) (nat (2 - 1))
             (takeWhile isSpace (splitLines ?content ! nat (2 - 1)) @ formatComment ''FLYF-228'' ''checked''))
           = ''function f() {\<newline>    // FLYF-228: checked\<newline>    return x;\<newline>}''"
    by code_simp
  from annotation_idempotent[OF h1 h2 appInput_def h5 h3 h4 h6 h7 h8]
  have "\<exists>r1 w1 r2 w2.
         addComments appWorld appInput = (r1, w1) \<and> success r1
       \<and> filesModified r1 = Some [''src/app.js'']
       \<and> files w1 ''src/app.js''
           = Some ''function f() {\<newline>    // FLYF-228: checked\<newline>    return x;\<newline>}''
       \<and> addComments w1 appInput = (r2, w2) \<and> \<not> success r2 \<and> filesModified r2 = Some []
       \<and> files w2 = files w1"
    unfolding e by blast
  with h1 h2 h3 h4 h7 h8 show ?thesis by blast
qed

text \<open>
  Where the target line already carries the tagged comment, the first call inserts
  nothing: the claim holds only for a target line without it.
\<close>

theorem first_call_on_tagged_line_counterexample:
  "files taggedWorld ''a.js'' = Some ''// FLYF-228: note\<newline>x = 1''
   \<and> (1::int) \<le> int (length (splitLines ''// FLYF-228: note\<newline>x = 1''))
   \<and> isBranchCode ''FLYF-228''
   \<and> addCommentToFile taggedWorld ''a.js'' 1 ''note'' ''FLYF-228''
       = (False, taggedWorld\<lparr>trace := [ReadFile ''a.js'']\<rparr>)"
proof -
  have a: "(1::int) \<le> int (length (splitLines ''// FLYF-228: note\<newline>x = 1''))" by code_simp
  have b: "isBranchCode ''FLYF-228''" by code_simp
  have c: "hasExistingComment (splitLines ''// FLYF-228: note\<newline>x = 1'' ! nat (1 - 1)) ''FLYF-228''"
    by code_simp
  show ?thesis
    using a b c by (simp add: addCommentToFile_eq taggedWorld_def)
qed

section \<open>The single-file insertion\<close>

lemma addCommentToFile_applied:
  assumes "addCommentToFile w p n c t = (True, w')"
  shows "\<exists>content. files w p = Some content \<and> p \<notin> readOnly w \<and> 1 \<le> n
           \<and> n \<le> int (length (splitLines content))
           \<and> \<not> hasExistingComment (splitLines content ! nat (n - 1)) t
           \<and> w' = w\<lparr>files := (files w)(p \<mapsto> joinLines (spliceAt (splitLines content) (nat (n - 1))
                            (takeWhile isSpace (splitLines content ! nat (n - 1)) @ formatComment t c))),
                      trace := trace w @ [ReadFile p, WriteFile p]\<rparr>"
  using assms unfolding addCommentToFile_eq
  by (auto split: option.splits if_splits)




text \<open>
  C6 (as amended). Whenever \<open>addCommentToFile\<close> applies an insertion, the inserted text
  is exactly the leading run of spaces of the target line, then \<open>//\<close>, a single space, the
  tag, a colon and a space, and the comment text. It is put in front of the target line,
  at index \<open>lineNumber - 1\<close> of the lines, every line of the file stays as it was and in
  its order, and no other file changes. The inserted text is one line when the comment
  text holds no newline; otherwise it spans the lines of the comment text.
\<close>

theorem inserted_line_exact:
  assumes applied: "addCommentToFile w p n c t = (True, w')"
    and tag: "plainTag t"
  shows "\<exists>content ls k line.
           files w p = Some content \<and> ls = splitLines content
         \<and> k = nat (n - 1) \<and> 1 \<le> n \<and> k < length ls
         \<and> line = takeWhile isSpace (ls ! k) @ ''//'' @ '' '' @ t @ '': '' @ c
         \<and> files w' p = Some (joinLines (take k ls @ [line] @ drop k ls))
         \<and> splitLines (joinLines (take k ls @ [line] @ drop k ls))
             = take k ls @ splitLines line @ drop k ls
         \<and> (nl \<notin> set c \<longrightarrow> splitLines line = [line])
         \<and> (\<forall>q. q \<noteq> p \<longrightarrow> files w' q = files w q)"
proof -
  from addCommentToFile_applied[OF applied] obtain content where
    rd: "files w p = Some content" and lo: "1 \<le> n"
    and hi: "n \<le> int (length (splitLines content))"
    and w': "w' = w\<lparr>files := (files w)(p \<mapsto> joinLines (spliceAt (splitLines content) (nat (n - 1))
                            (takeWhile isSpace (splitLines content ! nat (n - 1)) @ formatComment t c))),
                      trace := trace w @ [ReadFile p, WriteFile p]\<rparr>"
    by blast
  define ls where "ls = splitLines content"
  define k where "k = nat (n - 1)"
  define line where "line = takeWhile isSpace (ls ! k) @ ''//'' @ '' '' @ t @ '': '' @ c"
  have klt: "k < length ls" using lo hi by (simp add: k_def ls_def)
  have fc: "takeWhile isSpace (ls ! k) @ formatComment t c = line"
    by (simp add: line_def formatComment_def)
  have new: "files w' p = Some (joinLines (take k ls @ [line] @ drop k ls))"
    unfolding w' by (simp add: spliceAt_def fc[unfolded ls_def k_def] ls_def k_def)
  have sp: "splitLines (joinLines (take k ls @ [line] @ drop k ls))
             = take k ls @ splitLines line @ drop k ls"
    using splitLines_splice[of content k line] by (simp add: spliceAt_def ls_def)
  have "ls ! k \<in> set ls" using klt by simp
  then have "nl \<notin> set (ls ! k)" unfolding ls_def by (rule splitLines_lines_no_nl)
  then have "nl \<notin> set (takeWhile isSpace (ls ! k))" by (rule takeWhile_isSpace_no_nl)
  with plainTag_no_nl[OF tag] have one: "nl \<notin> set c \<longrightarrow> splitLines line = [line]"
    by (auto simp: line_def nl_def intro!: splitLines_no_nl[unfolded nl_def])
  have other: "\<forall>q. q \<noteq> p \<longrightarrow> files w' q = files w q"
    unfolding w' by simp
  from rd lo klt new sp one other show ?thesis
    unfolding ls_def k_def line_def by blast
qed

theorem inserted_line_exact_witness:
  "plainTag ''FLYF-228''
   \<and> fst (addCommentToFile mixedWorld ''tool.js'' 2 ''checked'' ''FLYF-228'')
   \<and> files (snd (addCommentToFile mixedWorld ''tool.js'' 2 ''checked'' ''FLYF-228'')) ''tool.js''
       = Some ''def f():\<newline>    // FLYF-228: checked\<newline>    return 1''
   \<and> splitLines ''def f():\<newline>    // FLYF-228: checked\<newline>    return 1''
       = [''def f():'', ''    // FLYF-228: checked'', ''    return 1'']"
proof -
  let ?content = "''def f():\<newline>    return 1''"
  let ?r = "addCommentToFile mixedWorld ''tool.js'' 2 ''checked'' ''FLYF-228''"
  have tag: "plainTag ''FLYF-228''" by code_simp
  have rd: "files mixedWorld ''tool.js'' = Some ?content" by (simp add: mixedWorld_def)
  have wr: "''tool.js'' \<notin> readOnly mixedWorld" by (simp add: mixedWorld_def)
  have len: "(2::int) \<le> int (length (splitLines ?content))" by code_simp
  have fresh: "\<not> hasExistingComment (splitLines ?content ! nat (2 - 1)) ''FLYF-228''"
    by code_simp
  have ok: "fst ?r"
    using rd wr len fresh by (simp add: addCommentToFile_eq)
  then have eq: "?r = (True, snd ?r)" by (cases ?r) simp
  have ev: "joinLines (take (nat (2 - 1)) (splitLines ?content)
              @ [takeWhile isSpace (splitLines ?content ! nat (2 - 1))
                   @ ''//'' @ '' '' @ ''FLYF-228'' @ '': '' @ ''checked'']
              @ drop (nat (2 - 1)) (splitLines ?content))
            = ''def f():\<newline>    // FLYF-228: checked\<newline>    return 1''"
    by code_simp
  have sp: "splitLines ''def f():\<newline>    // FLYF-228: checked\<newline>    return 1''
       = [''def f():'', ''    // FLYF-228: checked'', ''    return 1'']"
    by code_simp
  from inserted_line_exact[OF eq tag] rd
  have "files (snd ?r) ''tool.js''
          = Some ''def f():\<newline>    // FLYF-228: checked\<newline>    return 1''"
    unfolding ev[symmetric] by auto
  with tag ok sp show ?thesis by blast
qed

text \<open>
  A comment text with a newline is inserted as it is: the inserted text then spans two
  lines of the file, so it is not one line without an embedded newline.
\<close>

theorem multiline_comment_counterexample:
  "fst (addCommentToFile mixedWorld ''tool.js'' 1 ''a\<newline>b'' ''FLYF-228'')
   \<and> files (snd (addCommentToFile mixedWorld ''tool.js'' 1 ''a\<newline>b'' ''FLYF-228'')) ''tool.js''
       = Some ''// FLYF-228: a\<newline>b\<newline>def f():\<newline>    return 1''
   \<and> splitLines ''// FLYF-228: a\<newline>b\<newline>def f():\<newline>    return 1''
       = [''// FLYF-228: a'', ''b'', ''def f():'', ''    return 1'']"
proof -
  let ?content = "''def f():\<newline>    return 1''"
  have rd: "files mixedWorld ''tool.js'' = Some ?content" by (simp add: mixedWorld_def)
  have wr: "''tool.js'' \<notin> readOnly mixedWorld" by (simp add: mixedWorld_def)
  have len: "(1::int) \<le> int (length (splitLines ?content))" by code_simp
  have fresh: "\<not> hasExistingComment (splitLines ?content ! nat (1 - 1)) ''FLYF-228''"
    by code_simp
  have ev: "joinLines (spliceAt (splitLines ?content) (nat (1 - 1))
              (takeWhile isSpace (splitLines ?content ! nat (1 - 1))
                 @ formatComment ''FLYF-228'' ''a\<newline>b''))
            = ''// FLYF-228: a\<newline>b\<newline>def f():\<newline>    return 1''"
    by code_simp
  have sp: "splitLines ''// FLYF-228: a\<newline>b\<newline>def f():\<newline>    return 1''
       = [''// FLYF-228: a'', ''b'', ''def f():'', ''    return 1'']"
    by code_simp
  show ?thesis
    using rd wr len fresh ev sp by (simp add: addCommentToFile_eq)
qed

text \<open>
  C9. The comment token is the literal \<open>//\<close> whatever the path of the file: two files of
  the same content, under any two paths, get the same answer and the same new content,
  and an insertion writes the indentation, \<open>//\<close>, a space, the tag, a colon and a space,
  and the comment text in front of the target line.
\<close>

theorem comment_token_fixed:
  assumes rdp: "files w p = Some content"
    and rdq: "files v q = Some content"
    and wrp: "p \<notin> readOnly w"
    and wrq: "q \<notin> readOnly v"
    and tag: "plainTag t"
  shows "formatComment t c = ''// '' @ t @ '': '' @ c
       \<and> fst (addCommentToFile w p n c t) = fst (addCommentToFile v q n c t)
       \<and> files (snd (addCommentToFile w p n c t)) p = files (snd (addCommentToFile v q n c t)) q
       \<and> (fst (addCommentToFile w p n c t) \<longrightarrow>
            files (snd (addCommentToFile w p n c t)) p
              = Some (joinLines (spliceAt (splitLines content) (nat (n - 1))
                   (takeWhile isSpace (splitLines content ! nat (n - 1)) @ ''// '' @ t @ '': '' @ c))))"
  using rdp rdq wrp wrq
  by (simp add: addCommentToFile_eq formatComment_def)

theorem comment_token_fixed_witness:
  "files mixedWorld ''tool.py'' = Some ''def f():\<newline>    return 1''
   \<and> files mixedWorld ''tool.js'' = Some ''def f():\<newline>    return 1''
   \<and> plainTag ''FLYF-228''
   \<and> fst (addCommentToFile mixedWorld ''tool.py'' 2 ''checked'' ''FLYF-228'')
   \<and> files (snd (addCommentToFile mixedWorld ''tool.py'' 2 ''checked'' ''FLYF-228'')) ''tool.py''
       = Some ''def f():\<newline>    // FLYF-228: checked\<newline>    return 1''"
proof -
  let ?content = "''def f():\<newline>    return 1''"
  have rdp: "files mixedWorld ''tool.py'' = Some ?content" by (simp add: mixedWorld_def)
  have rdq: "files mixedWorld ''tool.js'' = Some ?content" by (simp add: mixedWorld_def)
  have wrp: "''tool.py'' \<notin> readOnly mixedWorld" by (simp add: mixedWorld_def)
  have wrq: "''tool.js'' \<notin> readOnly mixedWorld" by (simp add: mixedWorld_def)
  have tag: "plainTag ''FLYF-228''" by code_simp
  have len: "(2::int) \<le> int (length (splitLines ?content))" by code_simp
  have fresh: "\<not> hasExistingComment (splitLines ?content ! nat (2 - 1)) ''FLYF-228''"
    by code_simp
  have ok: "fst (addCommentToFile mixedWorld ''tool.py'' 2 ''checked'' ''FLYF-228'')"
    using rdp wrp len fresh by (simp add: addCommentToFile_eq)
  have ev: "joinLines (spliceAt (splitLines ?content) (nat (2 - 1))
              (takeWhile isSpace (splitLines ?content ! nat (2 - 1))
                 @ ''// '' @ ''FLYF-228'' @ '': '' @ ''checked''))
            = ''def f():\<newline>    // FLYF-228: checked\<newline>    return 1''"
    by code_simp
  from comment_token_fixed[OF rdp rdq wrp wrq tag, of "''checked''" 2] ok
  have "files (snd (addCommentToFile mixedWorld ''tool.py'' 2 ''checked'' ''FLYF-228'')) ''tool.py''
       = Some ''def f():\<newline>    // FLYF-228: checked\<newline>    return 1''"
    unfolding ev by blast
  with rdp rdq tag ok show ?thesis by blast
qed

section \<open>The map of the diff locator\<close>

lemma mapSet_keys: "map fst (mapSet m k v) = (if k \<in> fst ` set m then map fst m else map fst m @ [k])"
  by (induction m k v rule: mapSet.induct) (auto simp: image_iff)

lemma mapSet_distinct: "distinct (map fst m) \<Longrightarrow> distinct (map fst (mapSet m k v))"
  by (simp add: mapSet_keys)

lemma scanLine_distinct:
  "distinct (map fst (fileChanges st)) \<Longrightarrow> distinct (map fst (fileChanges (scanLine st l)))"
  by (auto simp: scanLine_def Let_def mapSet_distinct split: option.splits)

lemma foldl_scanLine_distinct:
  "distinct (map fst (fileChanges st)) \<Longrightarrow> distinct (map fst (fileChanges (foldl scanLine st ls)))"
  by (induction ls arbitrary: st) (auto simp: scanLine_distinct)

lemma parseDiff_distinct: "distinct (map fst (parseDiff d))"
  unfolding parseDiff_def by (rule foldl_scanLine_distinct) (simp add: initScan_def)

section \<open>The batch\<close>

lemma readsOf_append: "readsOf (a @ b) = readsOf a @ readsOf b"
  by (induction a rule: readsOf.induct) auto

lemma addCommentToFile_frame:
  assumes "addCommentToFile w p n c t = (ok, w')"
  shows "readOnly w' = readOnly w" and "branch w' = branch w"
    and "staged w' = staged w" and "unstaged w' = unstaged w"
    and "\<And>q. q \<noteq> p \<Longrightarrow> files w' q = files w q"
    and "readsOf (trace w') = readsOf (trace w) @ [p]"
  using assms unfolding addCommentToFile_eq
  by (auto simp: readsOf_append split: option.splits if_splits)

lemma addCommentToFile_annotated:
  assumes "addCommentToFile w p n c t = (ok, w')"
  shows "files w' p = files w p \<or> annotated t c (files w p) (files w' p)"
proof (cases ok)
  case True
  with assms have "addCommentToFile w p n c t = (True, w')" by simp
  from addCommentToFile_applied[OF this] obtain content where
    rd: "files w p = Some content" and lo: "1 \<le> n"
    and hi: "n \<le> int (length (splitLines content))"
    and w': "w' = w\<lparr>files := (files w)(p \<mapsto> joinLines (spliceAt (splitLines content) (nat (n - 1))
                            (takeWhile isSpace (splitLines content ! nat (n - 1)) @ formatComment t c))),
                      trace := trace w @ [ReadFile p, WriteFile p]\<rparr>"
    by blast
  have "nat (n - 1) < length (splitLines content)" using lo hi by simp
  then have "annotated t c (files w p) (files w' p)"
    unfolding annotated_def rd w' by auto
  then show ?thesis ..
next
  case False
  with assms have "files w' = files w"
    unfolding addCommentToFile_eq by (auto split: option.splits if_splits)
  then show ?thesis by simp
qed

lemma addCommentToFile_local:
  assumes "files w p = files v p" and "readOnly w = readOnly v"
  shows "fst (addCommentToFile w p n c t) = fst (addCommentToFile v p n c t)"
  using assms by (simp add: addCommentToFile_eq split: option.splits)

lemma addCommentToFile_trace:
  "addCommentToFile w p n c t = (ok, w') \<Longrightarrow> \<exists>r. trace w' = trace w @ r"
  unfolding addCommentToFile_eq by (auto split: option.splits if_splits)

lemma addCommentAt_Infinity:
  "addCommentAt w p Infinity c t = (False, w\<lparr>trace := trace w @ [ReadFile p]\<rparr>)"
  by (simp add: addCommentAt_def readFile_def split: option.splits)

lemma addCommentAt_Finite: "addCommentAt w p (Finite n) c t = addCommentToFile w p n c t"
  by (simp add: addCommentAt_def)

lemma addCommentAt_frame:
  assumes "addCommentAt w p x c t = (ok, w')"
  shows "readOnly w' = readOnly w" and "branch w' = branch w"
    and "staged w' = staged w" and "unstaged w' = unstaged w"
    and "\<And>q. q \<noteq> p \<Longrightarrow> files w' q = files w q"
    and "readsOf (trace w') = readsOf (trace w) @ [p]"
proof -
  show "readOnly w' = readOnly w" and "branch w' = branch w"
    and "staged w' = staged w" and "unstaged w' = unstaged w"
    and "readsOf (trace w') = readsOf (trace w) @ [p]"
    using assms addCommentToFile_frame[of w p _ c t ok w']
    by (cases x; auto simp: addCommentAt_Infinity addCommentAt_Finite readsOf_append)+
  show "\<And>q. q \<noteq> p \<Longrightarrow> files w' q = files w q"
    using assms addCommentToFile_frame(5)[of w p _ c t ok w']
    by (cases x) (auto simp: addCommentAt_Infinity addCommentAt_Finite)
qed

lemma addCommentAt_annotated:
  assumes "addCommentAt w p x c t = (ok, w')"
  shows "files w' p = files w p \<or> annotated t c (files w p) (files w' p)"
  using assms addCommentToFile_annotated[of w p _ c t ok w']
  by (cases x) (auto simp: addCommentAt_Infinity addCommentAt_Finite)

lemma addCommentAt_local:
  assumes "files w p = files v p" and "readOnly w = readOnly v"
  shows "fst (addCommentAt w p x c t) = fst (addCommentAt v p x c t)"
  using addCommentToFile_local[OF assms]
  by (cases x) (auto simp: addCommentAt_Infinity addCommentAt_Finite)

lemma addCommentAt_trace:
  "addCommentAt w p x c t = (ok, w') \<Longrightarrow> \<exists>r. trace w' = trace w @ r"
  using addCommentToFile_trace[of w p _ c t ok w']
  by (cases x) (auto simp: addCommentAt_Infinity addCommentAt_Finite)

lemma annotateEntry_skip: "annotateEntry c t (acc, w) (f, []) = (acc, w)"
  by (simp add: annotateEntry_def)

lemma annotateEntry_call:
  "ns \<noteq> [] \<Longrightarrow> annotateEntry c t (acc, w) (f, ns) =
     (if fst (addCommentAt w f (ns ! 0) c t) then acc @ [f] else acc,
      snd (addCommentAt w f (ns ! 0) c t))"
  by (simp add: annotateEntry_def split: prod.splits)

lemma batch_outcomes:
  assumes "distinct (map fst es)"
    and "\<forall>f \<in> fst ` set es. files v f = files w f"
    and "readOnly v = readOnly w"
  shows "fst (foldl (annotateEntry c t) (acc, v) es) =
           acc @ [f. (f, ns) \<leftarrow> es, ns \<noteq> [] \<and> fst (addCommentAt w f (ns ! 0) c t)]"
  using assms
proof (induction es arbitrary: acc v)
  case Nil
  then show ?case by simp
next
  case (Cons e es)
  obtain f ns where e: "e = (f, ns)" by (cases e)
  show ?case
  proof (cases "ns = []")
    case True
    with Cons e show ?thesis by (simp add: annotateEntry_skip)
  next
    case False
    define r where "r = addCommentAt v f (ns ! 0) c t"
    have rr: "addCommentAt v f (ns ! 0) c t = (fst r, snd r)" by (simp add: r_def)
    have same: "fst r = fst (addCommentAt w f (ns ! 0) c t)"
      unfolding r_def using Cons.prems e by (intro addCommentAt_local) auto
    have notin: "f \<notin> fst ` set es" using Cons.prems(1) e by (auto simp: image_iff)
    have keep: "\<forall>g \<in> fst ` set es. files (snd r) g = files w g"
    proof
      fix g assume g: "g \<in> fst ` set es"
      with notin have "g \<noteq> f" by auto
      from addCommentAt_frame(5)[OF rr this] Cons.prems(2) g e
      show "files (snd r) g = files w g" by auto
    qed
    have ro: "readOnly (snd r) = readOnly w"
      using addCommentAt_frame(1)[OF rr] Cons.prems(3) by simp
    have d: "distinct (map fst es)" using Cons.prems(1) by simp
    show ?thesis
      using Cons.IH[OF d keep ro] False same
      by (simp add: e annotateEntry_call r_def)
  qed
qed

lemma batch_reads:
  "readsOf (trace (snd (foldl (annotateEntry c t) (acc, v) es))) =
     readsOf (trace v) @ [f. (f, ns) \<leftarrow> es, ns \<noteq> []]"
proof (induction es arbitrary: acc v)
  case Nil
  then show ?case by simp
next
  case (Cons e es)
  obtain f ns where e: "e = (f, ns)" by (cases e)
  show ?case
  proof (cases "ns = []")
    case True
    with Cons e show ?thesis by (simp add: annotateEntry_skip)
  next
    case False
    define r where "r = addCommentAt v f (ns ! 0) c t"
    have rr: "addCommentAt v f (ns ! 0) c t = (fst r, snd r)" by (simp add: r_def)
    show ?thesis
      using Cons.IH[of _ "snd r"] False addCommentAt_frame(6)[OF rr]
      by (simp add: e annotateEntry_call r_def)
  qed
qed

lemma addComments_success_iff:
  "success (fst (addComments w input)) =
     (\<exists>fm. filesModified (fst (addComments w input)) = Some fm \<and> fm \<noteq> [])"
  by (auto simp: addComments_def getCurrentBranch_def getStagedDiff_def getUnstagedDiff_def
        caught_def Let_def split: sum.splits option.splits prod.splits if_splits)

lemma batch_annotated:
  assumes "distinct (map fst es)"
  shows "(\<forall>p. p \<notin> fst ` set es \<longrightarrow> files (snd (foldl (annotateEntry c t) (acc, v) es)) p = files v p)
       \<and> (\<forall>p. files (snd (foldl (annotateEntry c t) (acc, v) es)) p = files v p
              \<or> annotated t c (files v p) (files (snd (foldl (annotateEntry c t) (acc, v) es)) p))"
  using assms
proof (induction es arbitrary: acc v)
  case Nil
  then show ?case by simp
next
  case (Cons e es)
  obtain f ns where e: "e = (f, ns)" by (cases e)
  have d: "distinct (map fst es)" and notin: "f \<notin> fst ` set es"
    using Cons.prems e by (auto simp: image_iff)
  show ?case
  proof (cases "ns = []")
    case True
    with Cons.IH[OF d, of acc v] e show ?thesis by (simp add: annotateEntry_skip)
  next
    case False
    define r where "r = addCommentAt v f (ns ! 0) c t"
    define acc' where "acc' = (if fst r then acc @ [f] else acc)"
    define v' where "v' = snd (foldl (annotateEntry c t) (acc', snd r) es)"
    have rr: "addCommentAt v f (ns ! 0) c t = (fst r, snd r)" by (simp add: r_def)
    have step: "snd (foldl (annotateEntry c t) (acc, v) (e # es)) = v'"
      using False by (simp add: e annotateEntry_call r_def acc'_def v'_def)
    from Cons.IH[OF d, of acc' "snd r"]
    have ih1: "\<And>p. p \<notin> fst ` set es \<Longrightarrow> files v' p = files (snd r) p"
      and ih2: "\<And>p. files v' p = files (snd r) p \<or> annotated t c (files (snd r) p) (files v' p)"
      unfolding v'_def by blast+
    have other: "\<And>q. q \<noteq> f \<Longrightarrow> files (snd r) q = files v q"
      by (rule addCommentAt_frame(5)[OF rr])
    have own: "files (snd r) f = files v f \<or> annotated t c (files v f) (files (snd r) f)"
      by (rule addCommentAt_annotated[OF rr])
    have a: "\<forall>p. p \<notin> fst ` set (e # es) \<longrightarrow> files v' p = files v p"
      using ih1 other by (auto simp: e)
    have b: "\<forall>p. files v' p = files v p \<or> annotated t c (files v p) (files v' p)"
    proof
      fix p
      show "files v' p = files v p \<or> annotated t c (files v p) (files v' p)"
      proof (cases "p = f")
        case True
        with ih1[OF notin] own show ?thesis by simp
      next
        case False
        with ih2[of p] other[of p] show ?thesis by simp
      qed
    qed
    show ?thesis unfolding step using a b by blast
  qed
qed

lemma branchCodeAt_prefix: "isBranchCode m \<Longrightarrow> branchCodeAt (m @ b) = Some m"
  by (auto simp: isBranchCode_def branchCodeAt_def nth_append split: if_splits)

lemma branchCodeMatch_None:
  "branchCodeMatch s = None \<Longrightarrow> s = a @ m @ b \<Longrightarrow> \<not> isBranchCode m"
proof (induction s arbitrary: a)
  case Nil
  then show ?case by (simp add: isBranchCode_def branchCodeAt_def)
next
  case (Cons x xs)
  from Cons.prems(1) have at: "branchCodeAt (x # xs) = None" and rest: "branchCodeMatch xs = None"
    by (auto split: option.splits)
  show ?case
  proof (cases a)
    case Nil
    with Cons.prems(2) at branchCodeAt_prefix[of m b] show ?thesis by auto
  next
    case (Cons y ys)
    with Cons.prems(2) have "xs = ys @ m @ b" by simp
    from Cons.IH[OF rest this] show ?thesis .
  qed
qed

lemma branchCodeMatch_Some_sub: "branchCodeMatch s = Some m \<Longrightarrow> \<exists>a b. s = a @ m @ b"
proof (induction s)
  case Nil
  then show ?case by simp
next
  case (Cons x xs)
  show ?case
  proof (cases "branchCodeAt (x # xs)")
    case None
    with Cons obtain a b where "xs = a @ m @ b" by auto
    then have "x # xs = (x # a) @ m @ b" by simp
    then show ?thesis by blast
  next
    case (Some m')
    with Cons.prems have "m = take 8 (x # xs)"
      by (auto simp: branchCodeAt_def split: if_splits)
    then have "x # xs = [] @ m @ drop 8 (x # xs)" by simp
    then show ?thesis by blast
  qed
qed

lemma extractBranchCode_None:
  assumes "name = [] \<or> (\<forall>a m b. name = a @ m @ b \<longrightarrow> \<not> isBranchCode m)"
  shows "branchCodeOf (extractBranchCode name) = None"
proof (cases "branchCodeMatch name")
  case None
  then show ?thesis by (simp add: extractBranchCode_def)
next
  case (Some m)
  from branchCodeMatch_Some_sub[OF Some] branchCodeMatch_shape[OF Some] assms
  have "name = []" by blast
  with Some show ?thesis by simp
qed

lemma extractBranchCode_sub:
  "branchCodeOf (extractBranchCode name) = Some t \<Longrightarrow> \<exists>a b. name = a @ t @ b"
  by (auto simp: extractBranchCode_def split: if_splits option.splits dest: branchCodeMatch_Some_sub)

lemma addComments_gate:
  assumes "branch w = Inr name" and "branchCodeOf (extractBranchCode name) = None"
  shows "addComments w input =
           (\<lparr>success = False, message = ''Failed to extract branch code'', branchCode = None,
             filesModified = None, error = errorOf (extractBranchCode name)\<rparr>,
            w\<lparr>trace := trace w @ [GetCurrentBranch]\<rparr>)"
  using assms by (simp add: addComments_def getCurrentBranch_def Let_def truthy_def)

lemma addComments_thrown:
  assumes "branch w = Inl e"
  shows "addComments w input = (caught e, w\<lparr>trace := trace w @ [GetCurrentBranch]\<rparr>)"
  using assms by (simp add: addComments_def getCurrentBranch_def)

lemma addCommentsToDiff_annotated:
  "files (snd (addCommentsToDiff v diff c t)) p = files v p
   \<or> annotated t c (files v p) (files (snd (addCommentsToDiff v diff c t)) p)"
  unfolding addCommentsToDiff_def
  using batch_annotated[OF parseDiff_distinct, of diff c t "[]" v] by blast

lemma addCommentToFile_touch:
  assumes "addCommentToFile v path n c t = (ok, v')" and "files v = files w"
  shows "files v' p = files w p \<or> annotated t c (files w p) (files v' p)"
  using addCommentToFile_annotated[OF assms(1)] addCommentToFile_frame(5)[OF assms(1), of p] assms(2)
  by (cases "p = path") auto

lemma addCommentsToDiff_touch:
  assumes "addCommentsToDiff v diff c t = (ms, v')" and "files v = files w"
  shows "files v' p = files w p \<or> annotated t c (files w p) (files v' p)"
  using addCommentsToDiff_annotated[of v diff c t p] assms by simp

lemma addComments_files:
  assumes br: "branch w = Inr name" and code: "branchCodeOf (extractBranchCode name) = Some t"
  shows "files (snd (addComments w input)) p = files w p
       \<or> annotated t (comment input) (files w p) (files (snd (addComments w input)) p)"
proof -
  have v: "isValid (extractBranchCode name)" and ne: "t \<noteq> []"
    using extractBranchCode_Some[OF code] by (simp_all add: isBranchCode_nonempty)
  note defs = addComments_def getCurrentBranch_def getStagedDiff_def getUnstagedDiff_def
    Let_def truthy_def
  consider "source input = None" | "source input = Some Staged"
    | "source input = Some Unstaged" | "source input = Some File"
    by (cases "source input") (auto intro: source.exhaust)
  then show ?thesis
  proof cases
    case 1
    with br code v ne show ?thesis
      by (auto simp: defs split: sum.splits prod.splits dest: addCommentsToDiff_touch)
  next
    case 2
    with br code v ne show ?thesis
      by (auto simp: defs split: sum.splits prod.splits dest: addCommentsToDiff_touch)
  next
    case 3
    with br code v ne show ?thesis
      by (auto simp: defs split: sum.splits prod.splits dest: addCommentsToDiff_touch)
  next
    case 4
    with br code v ne show ?thesis
      by (auto simp: defs split: sum.splits prod.splits option.splits
          dest: addCommentsToDiff_touch addCommentToFile_touch)
  qed
qed

section \<open>The whole call\<close>

lemma addComments_diff_mode:
  assumes br: "branch w = Inr name"
    and code: "branchCodeOf (extractBranchCode name) = Some t"
    and src: "source input \<noteq> Some File"
    and diff: "(if source input = Some Unstaged then unstaged w else staged w) = Inr diff"
    and nonblank: "\<exists>ch \<in> set diff. \<not> isSpace ch"
  shows "addComments w input =
           (case addCommentsToDiff
                   (w\<lparr>trace := trace w @ [GetCurrentBranch,
                        if source input = Some Unstaged then GetUnstagedDiff else GetStagedDiff]\<rparr>)
                   diff (comment input) t of
              (modified, w3) \<Rightarrow>
                (\<lparr>success = length modified > 0,
                  message =
                    (if length modified > 0
                     then ''Comments added to '' @ showNat (length modified) @ '' file(s)''
                     else ''No comments were added (may already exist or no valid lines found)''),
                  branchCode = Some t,
                  filesModified = Some modified,
                  error = None\<rparr>, w3))"
proof -
  have v: "isValid (extractBranchCode name)" and ne: "t \<noteq> []"
    using extractBranchCode_Some[OF code] by (simp_all add: isBranchCode_nonempty)
  have d: "diff \<noteq> []" using nonblank by auto
  have nb: "\<not> (\<forall>c \<in> set diff. isSpace c)" using nonblank by blast
  note defs = addComments_def getCurrentBranch_def getStagedDiff_def getUnstagedDiff_def
    Let_def truthy_def
  consider "source input = None" | "source input = Some Staged" | "source input = Some Unstaged"
    using src by (cases "source input") (auto intro: source.exhaust)
  then show ?thesis
  proof cases
    case 1
    with br code v ne diff nb d show ?thesis by (auto simp: defs)
  next
    case 2
    with br code v ne diff nb d show ?thesis by (auto simp: defs)
  next
    case 3
    with br code v ne diff nb d show ?thesis by (auto simp: defs)
  qed
qed

lemma insertion_changes: "joinLines (spliceAt (splitLines content) k x) \<noteq> content"
proof
  assume "joinLines (spliceAt (splitLines content) k x) = content"
  then have "splitLines (joinLines (spliceAt (splitLines content) k x)) = splitLines content"
    by simp
  then have "length (take k (splitLines content) @ splitLines x @ drop k (splitLines content))
               = length (splitLines content)"
    unfolding splitLines_splice by simp
  moreover have "0 < length (splitLines x)" using splitLines_nonempty[of x] by simp
  ultimately show False by (auto simp: min_def split: if_splits)
qed

lemma addCommentToFile_changes:
  assumes "addCommentToFile v p n c t = (ok, v')"
  shows "ok = (files v' \<noteq> files v)" and "ok = (files v' p \<noteq> files v p)"
proof -
  have "ok = (files v' p \<noteq> files v p) \<and> (\<not> ok \<longrightarrow> files v' = files v)"
    using assms insertion_changes unfolding addCommentToFile_eq
    by (auto split: option.splits if_splits)
  then show "ok = (files v' \<noteq> files v)" and "ok = (files v' p \<noteq> files v p)"
    by auto
qed

lemma addCommentAt_changes:
  assumes "addCommentAt v p x c t = (ok, v')"
  shows "ok = (files v' \<noteq> files v)" and "ok = (files v' p \<noteq> files v p)"
  using assms addCommentToFile_changes[of v p _ c t ok v']
  by (cases x; auto simp: addCommentAt_Infinity addCommentAt_Finite)+

lemma addCommentAt_applied:
  assumes "addCommentAt v p x c t = (True, v')"
  shows "\<exists>n content. x = Finite n \<and> files v p = Some content \<and> 1 \<le> n
           \<and> n \<le> int (length (splitLines content))
           \<and> v' = v\<lparr>files := (files v)(p \<mapsto> joinLines (spliceAt (splitLines content) (nat (n - 1))
                            (takeWhile isSpace (splitLines content ! nat (n - 1)) @ formatComment t c))),
                      trace := trace v @ [ReadFile p, WriteFile p]\<rparr>"
  using assms addCommentToFile_applied[of v p _ c t v']
  by (cases x) (auto simp: addCommentAt_Infinity addCommentAt_Finite)

lemma batch_changed:
  assumes "distinct (map fst es)"
  shows "set (fst (foldl (annotateEntry c t) (acc, v) es))
           = set acc \<union> {p \<in> fst ` set es. files (snd (foldl (annotateEntry c t) (acc, v) es)) p \<noteq> files v p}"
  using assms
proof (induction es arbitrary: acc v)
  case Nil
  then show ?case by simp
next
  case (Cons e es)
  obtain f ns where e: "e = (f, ns)" by (cases e)
  have d: "distinct (map fst es)" and notin: "f \<notin> fst ` set es"
    using Cons.prems e by (auto simp: image_iff)
  show ?case
  proof (cases "ns = []")
    case True
    have same: "files (snd (foldl (annotateEntry c t) (acc, v) es)) f = files v f"
      using batch_annotated[OF d, of c t acc v] notin by blast
    from Cons.IH[OF d, of acc v] True same show ?thesis
      by (auto simp: e annotateEntry_skip)
  next
    case False
    define r where "r = addCommentAt v f (ns ! 0) c t"
    define acc' where "acc' = (if fst r then acc @ [f] else acc)"
    define v' where "v' = snd (foldl (annotateEntry c t) (acc', snd r) es)"
    have rr: "addCommentAt v f (ns ! 0) c t = (fst r, snd r)" by (simp add: r_def)
    have step: "foldl (annotateEntry c t) (acc, v) (e # es)
                  = foldl (annotateEntry c t) (acc', snd r) es"
      using False by (simp add: e annotateEntry_call r_def acc'_def)
    have other: "\<And>q. q \<noteq> f \<Longrightarrow> files (snd r) q = files v q"
      by (rule addCommentAt_frame(5)[OF rr])
    have own: "fst r = (files (snd r) f \<noteq> files v f)"
      by (rule addCommentAt_changes(2)[OF rr])
    have keepf: "files v' f = files (snd r) f"
      using batch_annotated[OF d, of c t acc' "snd r"] notin unfolding v'_def by blast
    have ih: "set (fst (foldl (annotateEntry c t) (acc', snd r) es))
           = set acc' \<union> {p \<in> fst ` set es. files v' p \<noteq> files (snd r) p}"
      unfolding v'_def by (rule Cons.IH[OF d])
    have apart: "\<And>a. a \<in> fst ` set es \<Longrightarrow> a \<noteq> f" using notin by auto
    have "{p \<in> fst ` set es. files v' p \<noteq> files (snd r) p}
            = {p \<in> fst ` set es. files v' p \<noteq> files v p}"
      using other[OF apart] by (intro Collect_cong) (simp cong: conj_cong)
    moreover have "set acc' = set acc \<union> {p. p = f \<and> files v' p \<noteq> files v p}"
      using own keepf by (auto simp: acc'_def)
    ultimately show ?thesis
      unfolding step ih using v'_def by (auto simp: e)
  qed
qed

lemma addCommentsToDiff_changes:
  assumes "addCommentsToDiff v diff c t = (ms, v')"
  shows "(ms \<noteq> []) = (files v' \<noteq> files v)"
proof -
  have ms: "ms = fst (foldl (annotateEntry c t) ([], v) (parseDiff diff))"
    and v': "v' = snd (foldl (annotateEntry c t) ([], v) (parseDiff diff))"
    using assms by (simp_all add: addCommentsToDiff_def)
  have keys: "set ms = {p \<in> fst ` set (parseDiff diff). files v' p \<noteq> files v p}"
    using batch_changed[OF parseDiff_distinct, of c t "[]" v diff] by (simp add: ms v')
  have rest: "\<And>p. p \<notin> fst ` set (parseDiff diff) \<Longrightarrow> files v' p = files v p"
    using batch_annotated[OF parseDiff_distinct, of diff c t "[]" v] unfolding v' by blast
  show ?thesis
  proof
    assume "ms \<noteq> []"
    then obtain p where "p \<in> set ms" by (cases ms) auto
    with keys have "files v' p \<noteq> files v p" by auto
    then show "files v' \<noteq> files v" by auto
  next
    assume "files v' \<noteq> files v"
    then obtain p where p: "files v' p \<noteq> files v p" by auto
    with rest have "p \<in> fst ` set (parseDiff diff)" by auto
    with p keys have "p \<in> set ms" by auto
    then show "ms \<noteq> []" by auto
  qed
qed

lemma addComments_changes:
  "success (fst (addComments w input)) = (files (snd (addComments w input)) \<noteq> files w)"
proof -
  note defs = addComments_def getCurrentBranch_def getStagedDiff_def getUnstagedDiff_def
    caught_def Let_def
  have single: "ok = (files v' \<noteq> files w)"
    if "addCommentToFile (w\<lparr>trace := trace w @ [GetCurrentBranch]\<rparr>) p n c t = (ok, v')"
    for p n c t ok v'
    using addCommentToFile_changes(1)[OF that] by simp
  have batch: "(0 < length ms) = (files v' \<noteq> files w)"
    if "addCommentsToDiff (w\<lparr>trace := trace w @ [GetCurrentBranch, e]\<rparr>) d c t = (ms, v')"
    for e d c t ms v'
    using addCommentsToDiff_changes[OF that] by simp
  consider "source input = None" | "source input = Some Staged"
    | "source input = Some Unstaged" | "source input = Some File"
    by (cases "source input") (auto intro: source.exhaust)
  then show ?thesis
  proof cases
    case 1
    then show ?thesis
      by (auto simp: defs split: sum.splits prod.splits option.splits dest: batch)
  next
    case 2
    then show ?thesis
      by (auto simp: defs split: sum.splits prod.splits option.splits dest: batch)
  next
    case 3
    then show ?thesis
      by (auto simp: defs split: sum.splits prod.splits option.splits dest: batch)
  next
    case 4
    then show ?thesis
      by (auto simp: defs split: sum.splits prod.splits option.splits dest: batch single)
  qed
qed

lemma batchAfter_Suc:
  assumes "i < length es" and "es ! i = (f, ns)" and "batchAfter w c t es i = (ms, v)"
  shows "batchAfter w c t es (Suc i) = annotateEntry c t (ms, v) (f, ns)"
  using assms by (simp add: batchAfter_def take_Suc_conv_app_nth)

lemma addCommentsToDiff_local:
  assumes "files v = files w" and "readOnly v = readOnly w"
  shows "fst (addCommentsToDiff v diff c t) = fst (addCommentsToDiff w diff c t)"
  unfolding addCommentsToDiff_def
  using batch_outcomes[OF parseDiff_distinct, of diff v w c t "[]"]
    batch_outcomes[OF parseDiff_distinct, of diff w w c t "[]"] assms
  by simp

text \<open>
  C7. The batch goes through the entries of the map in their order, each on the tree
  that the entries before it left, whatever their outcomes. An entry without a recorded
  line is passed over. For any other entry the batch calls the single-file insertion
  with the first recorded line number alone; the file is added to the modified files
  exactly when that call answers \<open>true\<close>, which is exactly when the call changed the tree,
  and then the file holds the comment line in front of that line; a call that answers
  \<open>false\<close> leaves every file as it was, and the batch goes on. Every file with a
  recorded line is read, in map order. The batch reports a modified file exactly when it
  changed the tree. The result of \<open>addComments\<close> reports success exactly when it reports
  at least one modified file, which is exactly when the call changed the tree, and on
  the path of the diff it reports the modified files of the batch.
\<close>

theorem best_effort_batch:
  "addCommentsToDiff w diff c t = batchAfter w c t (parseDiff diff) (length (parseDiff diff))
   \<and> batchAfter w c t (parseDiff diff) 0 = ([], w)
   \<and> (\<forall>i < length (parseDiff diff). \<forall>f ns ms v.
         parseDiff diff ! i = (f, ns) \<and> batchAfter w c t (parseDiff diff) i = (ms, v) \<longrightarrow>
           (ns = [] \<longrightarrow> batchAfter w c t (parseDiff diff) (Suc i) = (ms, v))
         \<and> (ns \<noteq> [] \<longrightarrow>
              (\<forall>ok v'. addCommentAt v f (ns ! 0) c t = (ok, v') \<longrightarrow>
                 batchAfter w c t (parseDiff diff) (Suc i) = (if ok then ms @ [f] else ms, v')
               \<and> ok = (files v' \<noteq> files v)
               \<and> (ok \<longrightarrow>
                    (\<exists>n content. ns ! 0 = Finite n \<and> files v f = Some content
                       \<and> files v' = (files v)(f \<mapsto> joinLines (spliceAt (splitLines content) (nat (n - 1))
                            (takeWhile isSpace (splitLines content ! nat (n - 1))
                               @ formatComment t c))))))))
   \<and> readsOf (trace (snd (addCommentsToDiff w diff c t)))
     = readsOf (trace w) @ [f. (f, ns) \<leftarrow> parseDiff diff, ns \<noteq> []]
   \<and> (fst (addCommentsToDiff w diff c t) \<noteq> [])
     = (files (snd (addCommentsToDiff w diff c t)) \<noteq> files w)
   \<and> success (fst (addComments w input))
     = (\<exists>fm. filesModified (fst (addComments w input)) = Some fm \<and> fm \<noteq> [])
   \<and> success (fst (addComments w input)) = (files (snd (addComments w input)) \<noteq> files w)
   \<and> (branch w = Inr name \<and> branchCodeOf (extractBranchCode name) = Some t
        \<and> source input \<noteq> Some File
        \<and> (if source input = Some Unstaged then unstaged w else staged w) = Inr diff
        \<and> (\<exists>ch \<in> set diff. \<not> isSpace ch)
      \<longrightarrow> filesModified (fst (addComments w input))
            = Some (fst (addCommentsToDiff w diff (comment input) t)))"
proof -
  let ?es = "parseDiff diff"
  have whole: "addCommentsToDiff w diff c t = batchAfter w c t ?es (length ?es)"
    by (simp add: addCommentsToDiff_def batchAfter_def)
  have start: "batchAfter w c t ?es 0 = ([], w)"
    by (simp add: batchAfter_def)
  have steps: "(ns = [] \<longrightarrow> batchAfter w c t ?es (Suc i) = (ms, v))
         \<and> (ns \<noteq> [] \<longrightarrow>
              (\<forall>ok v'. addCommentAt v f (ns ! 0) c t = (ok, v') \<longrightarrow>
                 batchAfter w c t ?es (Suc i) = (if ok then ms @ [f] else ms, v')
               \<and> ok = (files v' \<noteq> files v)
               \<and> (ok \<longrightarrow>
                    (\<exists>n content. ns ! 0 = Finite n \<and> files v f = Some content
                       \<and> files v' = (files v)(f \<mapsto> joinLines (spliceAt (splitLines content) (nat (n - 1))
                            (takeWhile isSpace (splitLines content ! nat (n - 1))
                               @ formatComment t c)))))))"
    if i: "i < length ?es" and e: "?es ! i = (f, ns)" and b: "batchAfter w c t ?es i = (ms, v)"
    for i f ns ms v
  proof -
    note suc = batchAfter_Suc[OF i e b]
    have skip: "batchAfter w c t ?es (Suc i) = (ms, v)" if "ns = []"
      using that suc by (simp add: annotateEntry_skip)
    have call: "batchAfter w c t ?es (Suc i) = (if ok then ms @ [f] else ms, v')
               \<and> ok = (files v' \<noteq> files v)
               \<and> (ok \<longrightarrow>
                    (\<exists>n content. ns ! 0 = Finite n \<and> files v f = Some content
                       \<and> files v' = (files v)(f \<mapsto> joinLines (spliceAt (splitLines content) (nat (n - 1))
                            (takeWhile isSpace (splitLines content ! nat (n - 1))
                               @ formatComment t c)))))"
      if ne: "ns \<noteq> []" and r: "addCommentAt v f (ns ! 0) c t = (ok, v')" for ok v'
    proof -
      have one: "batchAfter w c t ?es (Suc i) = (if ok then ms @ [f] else ms, v')"
        using suc ne r by (simp add: annotateEntry_call)
      have two: "ok = (files v' \<noteq> files v)" by (rule addCommentAt_changes(1)[OF r])
      have three: "\<exists>n content. ns ! 0 = Finite n \<and> files v f = Some content
                       \<and> files v' = (files v)(f \<mapsto> joinLines (spliceAt (splitLines content) (nat (n - 1))
                            (takeWhile isSpace (splitLines content ! nat (n - 1))
                               @ formatComment t c)))" if ok
      proof -
        from that r have "addCommentAt v f (ns ! 0) c t = (True, v')" by simp
        from addCommentAt_applied[OF this] show ?thesis by auto
      qed
      from one two three show ?thesis by blast
    qed
    from skip call show ?thesis by blast
  qed
  have reads: "readsOf (trace (snd (addCommentsToDiff w diff c t)))
     = readsOf (trace w) @ [f. (f, ns) \<leftarrow> ?es, ns \<noteq> []]"
    unfolding addCommentsToDiff_def by (rule batch_reads)
  have changed: "(fst (addCommentsToDiff w diff c t) \<noteq> [])
     = (files (snd (addCommentsToDiff w diff c t)) \<noteq> files w)"
    by (rule addCommentsToDiff_changes) simp
  have reported: "filesModified (fst (addComments w input))
            = Some (fst (addCommentsToDiff w diff (comment input) t))"
    if br: "branch w = Inr name" and code: "branchCodeOf (extractBranchCode name) = Some t"
      and src: "source input \<noteq> Some File"
      and df: "(if source input = Some Unstaged then unstaged w else staged w) = Inr diff"
      and nb: "\<exists>ch \<in> set diff. \<not> isSpace ch"
  proof -
    define w2 where "w2 = w\<lparr>trace := trace w @ [GetCurrentBranch,
                        if source input = Some Unstaged then GetUnstagedDiff else GetStagedDiff]\<rparr>"
    have "filesModified (fst (addComments w input))
            = Some (fst (addCommentsToDiff w2 diff (comment input) t))"
      unfolding addComments_diff_mode[OF br code src df nb] w2_def
      by (simp split: prod.splits)
    also have "fst (addCommentsToDiff w2 diff (comment input) t)
                 = fst (addCommentsToDiff w diff (comment input) t)"
      by (rule addCommentsToDiff_local) (simp_all add: w2_def)
    finally show ?thesis .
  qed
  from whole start steps reads changed reported
    addComments_success_iff[of w input] addComments_changes[of w input]
  show ?thesis by blast
qed

theorem best_effort_batch_witness:
  "branch batchWorld = Inr ''feature/FLYF-228-login''
   \<and> branchCodeOf (extractBranchCode ''feature/FLYF-228-login'') = Some ''FLYF-228''
   \<and> source batchInput \<noteq> Some File
   \<and> staged batchWorld = Inr twoFileDiff
   \<and> (\<exists>ch \<in> set twoFileDiff. \<not> isSpace ch)
   \<and> parseDiff twoFileDiff = [(''a.js'', [Finite 1]), (''b.js'', [Finite 2])]
   \<and> \<not> fst (addCommentAt batchWorld ''a.js'' (Finite 1) ''checked'' ''FLYF-228'')
   \<and> batchAfter batchWorld ''checked'' ''FLYF-228'' (parseDiff twoFileDiff) 1
       = ([], snd (addCommentAt batchWorld ''a.js'' (Finite 1) ''checked'' ''FLYF-228''))
   \<and> files (snd (addCommentAt batchWorld ''a.js'' (Finite 1) ''checked'' ''FLYF-228''))
       = files batchWorld
   \<and> fst (addCommentsToDiff batchWorld twoFileDiff ''checked'' ''FLYF-228'') = [''b.js'']
   \<and> files (snd (addCommentsToDiff batchWorld twoFileDiff ''checked'' ''FLYF-228'')) ''b.js''
       = Some ''first\<newline>// FLYF-228: checked\<newline>second\<newline>third''
   \<and> files (snd (addCommentsToDiff batchWorld twoFileDiff ''checked'' ''FLYF-228''))
       \<noteq> files batchWorld
   \<and> readsOf (trace (snd (addCommentsToDiff batchWorld twoFileDiff ''checked'' ''FLYF-228'')))
       = [''a.js'', ''b.js'']
   \<and> filesModified (fst (addComments batchWorld batchInput)) = Some [''b.js'']
   \<and> success (fst (addComments batchWorld batchInput))
   \<and> files (snd (addComments batchWorld batchInput)) \<noteq> files batchWorld"
proof -
  let ?es = "parseDiff twoFileDiff"
  let ?B = "batchAfter batchWorld ''checked'' ''FLYF-228'' ?es"
  let ?call = "addCommentAt batchWorld ''a.js'' (Finite 1) ''checked'' ''FLYF-228''"
  let ?batch = "addCommentsToDiff batchWorld twoFileDiff ''checked'' ''FLYF-228''"
  note inst = best_effort_batch[of batchWorld twoFileDiff "''checked''" "''FLYF-228''" batchInput
      "''feature/FLYF-228-login''"]
  note c2 = inst[THEN conjunct2, THEN conjunct1]
    and c3 = inst[THEN conjunct2, THEN conjunct2, THEN conjunct1]
    and c4 = inst[THEN conjunct2, THEN conjunct2, THEN conjunct2, THEN conjunct1]
    and c5 = inst[THEN conjunct2, THEN conjunct2, THEN conjunct2, THEN conjunct2, THEN conjunct1]
    and c6 = inst[THEN conjunct2, THEN conjunct2, THEN conjunct2, THEN conjunct2, THEN conjunct2,
                  THEN conjunct1]
    and c7 = inst[THEN conjunct2, THEN conjunct2, THEN conjunct2, THEN conjunct2, THEN conjunct2,
                  THEN conjunct2, THEN conjunct1]
    and c8 = inst[THEN conjunct2, THEN conjunct2, THEN conjunct2, THEN conjunct2, THEN conjunct2,
                  THEN conjunct2, THEN conjunct2]
  have h1: "branch batchWorld = Inr ''feature/FLYF-228-login''" by (simp add: batchWorld_def)
  have h2: "branchCodeOf (extractBranchCode ''feature/FLYF-228-login'') = Some ''FLYF-228''"
    by code_simp
  have h3: "source batchInput \<noteq> Some File" by (simp add: batchInput_def)
  have h4: "staged batchWorld = Inr twoFileDiff" by (simp add: batchWorld_def)
  have h4': "(if source batchInput = Some Unstaged then unstaged batchWorld else staged batchWorld)
               = Inr twoFileDiff"
    by (simp add: batchWorld_def batchInput_def)
  have h5: "\<exists>ch \<in> set twoFileDiff. \<not> isSpace ch" by code_simp
  have p: "?es = [(''a.js'', [Finite 1]), (''b.js'', [Finite 2])]" by code_simp
  have cm: "comment batchInput = ''checked''" by (simp add: batchInput_def)
  have tr: "trace batchWorld = []" by (simp add: batchWorld_def)
  have no: "\<not> fst ?call" by code_simp
  have call: "?call = (False, snd ?call)" using no by (cases ?call) simp
  have i0: "0 < length ?es" and e0: "?es ! 0 = (''a.js'', [Finite 1])" by (simp_all add: p)
  from c3[rule_format, of 0 "''a.js''" "[Finite 1]" "[]" batchWorld] i0 e0 c2
  have s0: "\<forall>ok v'. addCommentAt batchWorld ''a.js'' ([Finite 1] ! 0) ''checked'' ''FLYF-228'' = (ok, v') \<longrightarrow>
              ?B (Suc 0) = (if ok then [] @ [''a.js''] else [], v')
              \<and> ok = (files v' \<noteq> files batchWorld)"
    by blast
  from s0[rule_format, of False "snd ?call"] call
  have b1: "?B 1 = ([], snd ?call)" and same: "files (snd ?call) = files batchWorld"
    by simp_all
  have r1: "fst ?batch = [''b.js'']" by code_simp
  have r2: "files (snd ?batch) ''b.js'' = Some ''first\<newline>// FLYF-228: checked\<newline>second\<newline>third''"
    by code_simp
  have r3: "files (snd ?batch) \<noteq> files batchWorld" using c5 r1 by simp
  have r4: "readsOf (trace (snd ?batch)) = [''a.js'', ''b.js'']"
    using c4 by (simp add: p tr)
  from c8 h1 h2 h3 h4' h5
  have fm: "filesModified (fst (addComments batchWorld batchInput)) = Some (fst ?batch)"
    unfolding cm by blast
  have s1: "filesModified (fst (addComments batchWorld batchInput)) = Some [''b.js'']"
    using fm r1 by simp
  have s2: "success (fst (addComments batchWorld batchInput))" using c6 s1 by simp
  have s3: "files (snd (addComments batchWorld batchInput)) \<noteq> files batchWorld"
    using c7 s2 by simp
  from h1 h2 h3 h4 h5 p no b1 same r1 r2 r3 r4 s1 s2 s3 show ?thesis
    unfolding p by blast
qed


section \<open>The gate of the branch code\<close>

lemma batch_trace:
  "\<exists>r. trace (snd (foldl (annotateEntry c t) (acc, v) es)) = trace v @ r"
proof (induction es arbitrary: acc v)
  case Nil
  then show ?case by simp
next
  case (Cons e es)
  obtain f ns where e: "e = (f, ns)" by (cases e)
  show ?case
  proof (cases "ns = []")
    case True
    with Cons e show ?thesis by (simp add: annotateEntry_skip)
  next
    case False
    define r where "r = addCommentAt v f (ns ! 0) c t"
    have rr: "addCommentAt v f (ns ! 0) c t = (fst r, snd r)" by (simp add: r_def)
    from addCommentAt_trace[OF rr] obtain r1 where r1: "trace (snd r) = trace v @ r1" by blast
    from Cons.IH[of "if fst r then acc @ [f] else acc" "snd r"] obtain r2 where
      "trace (snd (foldl (annotateEntry c t) (if fst r then acc @ [f] else acc, snd r) es))
         = trace (snd r) @ r2" by blast
    with r1 False show ?thesis
      by (simp add: e annotateEntry_call r_def)
  qed
qed

lemma addCommentsToDiff_trace:
  "addCommentsToDiff v diff c t = (ms, v') \<Longrightarrow> \<exists>r. trace v' = trace v @ r"
  using batch_trace[of c t "[]" v "parseDiff diff"] by (simp add: addCommentsToDiff_def)

lemma addComments_branch_first:
  "\<exists>r. trace (snd (addComments w input)) = trace w @ GetCurrentBranch # r"
proof -
  note defs = addComments_def getCurrentBranch_def getStagedDiff_def getUnstagedDiff_def
    Let_def
  have single: "\<exists>r. trace v' = trace w @ GetCurrentBranch # r"
    if "addCommentToFile (w\<lparr>trace := trace w @ [GetCurrentBranch]\<rparr>) p n c t = (ok, v')"
    for p n c t ok v'
    using addCommentToFile_trace[OF that] by auto
  have batch: "\<exists>r. trace v' = trace w @ GetCurrentBranch # r"
    if "addCommentsToDiff (w\<lparr>trace := trace w @ [GetCurrentBranch, e]\<rparr>) d c t = (ms, v')"
    for e d c t ms v'
    using addCommentsToDiff_trace[OF that] by auto
  consider "source input = None" | "source input = Some Staged"
    | "source input = Some Unstaged" | "source input = Some File"
    by (cases "source input") (auto intro: source.exhaust)
  then show ?thesis
  proof cases
    case 1
    then show ?thesis
      by (auto simp: defs split: sum.splits prod.splits option.splits dest: batch)
  next
    case 2
    then show ?thesis
      by (auto simp: defs split: sum.splits prod.splits option.splits dest: batch)
  next
    case 3
    then show ?thesis
      by (auto simp: defs split: sum.splits prod.splits option.splits dest: batch)
  next
    case 4
    then show ?thesis
      by (auto simp: defs split: sum.splits prod.splits option.splits dest: batch single)
  qed
qed

text \<open>
  C10. Every call of \<open>addComments\<close> asks for the branch name before any other effect. If
  the name is empty or holds no substring of the form \<open>FLY[A-Z]-[0-9]{3}\<close>, the call
  returns no success with the message \<open>Failed to extract branch code\<close>, and asking for
  the branch name is the only thing it has done: no diff was fetched, no file read or
  written. Otherwise the code it extracts is a substring of the name, has that form and
  holds no character of pattern syntax; it is the code the result reports, and every
  file the call changes got one comment line with that code as its tag.
\<close>

theorem branch_code_gate:
  assumes br: "branch w = Inr name"
  shows "(name = [] \<or> (\<forall>a m b. name = a @ m @ b \<longrightarrow> \<not> isBranchCode m) \<longrightarrow>
            addComments w input =
              (\<lparr>success = False, message = ''Failed to extract branch code'',
                branchCode = None, filesModified = None,
                error = errorOf (extractBranchCode name)\<rparr>,
               w\<lparr>trace := trace w @ [GetCurrentBranch]\<rparr>))
       \<and> (\<forall>t. branchCodeOf (extractBranchCode name) = Some t \<longrightarrow>
              (\<exists>a b. name = a @ t @ b)
            \<and> (\<exists>u d1 d2 d3. t = ''FLY'' @ [u] @ ''-'' @ [d1, d2, d3]
                  \<and> isUpper u \<and> isDigit d1 \<and> isDigit d2 \<and> isDigit d3)
            \<and> (\<forall>ch \<in> set t. \<not> patternSyntax ch)
            \<and> (\<forall>p. files (snd (addComments w input)) p = files w p
                  \<or> annotated t (comment input) (files w p) (files (snd (addComments w input)) p)))
       \<and> (\<forall>t. branchCode (fst (addComments w input)) = Some t \<longrightarrow>
              branchCodeOf (extractBranchCode name) = Some t)
       \<and> (branchCodeOf (extractBranchCode name) = None \<longrightarrow>
              snd (addComments w input) = w\<lparr>trace := trace w @ [GetCurrentBranch]\<rparr>)
       \<and> (\<exists>r. trace (snd (addComments w input)) = trace w @ GetCurrentBranch # r)"
proof -
  have gate: "addComments w input =
              (\<lparr>success = False, message = ''Failed to extract branch code'',
                branchCode = None, filesModified = None,
                error = errorOf (extractBranchCode name)\<rparr>,
               w\<lparr>trace := trace w @ [GetCurrentBranch]\<rparr>)"
    if "name = [] \<or> (\<forall>a m b. name = a @ m @ b \<longrightarrow> \<not> isBranchCode m)"
    by (rule addComments_gate[OF br extractBranchCode_None[OF that]])
  have tags: "(\<exists>a b. name = a @ t @ b)
            \<and> (\<exists>u d1 d2 d3. t = ''FLY'' @ [u] @ ''-'' @ [d1, d2, d3]
                  \<and> isUpper u \<and> isDigit d1 \<and> isDigit d2 \<and> isDigit d3)
            \<and> (\<forall>ch \<in> set t. \<not> patternSyntax ch)
            \<and> (\<forall>p. files (snd (addComments w input)) p = files w p
                  \<or> annotated t (comment input) (files w p) (files (snd (addComments w input)) p))"
    if code: "branchCodeOf (extractBranchCode name) = Some t" for t
  proof -
    have bc: "isBranchCode t" using extractBranchCode_Some[OF code] by simp
    from isBranchCode_plain[OF bc] have "\<forall>ch \<in> set t. \<not> patternSyntax ch"
      by (simp add: plainTag_def)
    with extractBranchCode_sub[OF code] isBranchCode_chars[OF bc] addComments_files[OF br code]
    show ?thesis by blast
  qed
  have rep: "branchCodeOf (extractBranchCode name) = Some t"
    if "branchCode (fst (addComments w input)) = Some t" for t
  proof (cases "branchCodeOf (extractBranchCode name)")
    case None
    from addComments_gate[OF br None] that show ?thesis by simp
  next
    case (Some t')
    have v: "isValid (extractBranchCode name)" and ne: "t' \<noteq> []"
      using extractBranchCode_Some[OF Some] by (simp_all add: isBranchCode_nonempty)
    from that br Some v ne have "t = t'"
      by (auto simp: addComments_def getCurrentBranch_def getStagedDiff_def getUnstagedDiff_def
            caught_def Let_def truthy_def split: sum.splits option.splits prod.splits if_splits)
    with Some show ?thesis by simp
  qed
  have none: "snd (addComments w input) = w\<lparr>trace := trace w @ [GetCurrentBranch]\<rparr>"
    if "branchCodeOf (extractBranchCode name) = None"
    using addComments_gate[OF br that] by simp
  from gate tags rep none addComments_branch_first[of w input] show ?thesis by blast
qed

theorem branch_code_gate_witness:
  "branch mainWorld = Inr ''main''
   \<and> branchCodeMatch ''main'' = None
   \<and> \<not> success (fst (addComments mainWorld batchInput))
   \<and> message (fst (addComments mainWorld batchInput)) = ''Failed to extract branch code''
   \<and> trace (snd (addComments mainWorld batchInput)) = [GetCurrentBranch]
   \<and> files (snd (addComments mainWorld batchInput)) = files mainWorld
   \<and> branch batchWorld = Inr ''feature/FLYF-228-login''
   \<and> branchCodeOf (extractBranchCode ''feature/FLYF-228-login'') = Some ''FLYF-228''
   \<and> branchCode (fst (addComments batchWorld batchInput)) = Some ''FLYF-228''
   \<and> \<not> list_ex patternSyntax ''FLYF-228''
   \<and> (files (snd (addComments batchWorld batchInput)) ''b.js'' = files batchWorld ''b.js''
       \<or> annotated ''FLYF-228'' ''checked'' (files batchWorld ''b.js'')
            (files (snd (addComments batchWorld batchInput)) ''b.js''))"
proof -
  have br: "branch mainWorld = Inr ''main''" by (simp add: mainWorld_def)
  have m: "branchCodeMatch ''main'' = None" by code_simp
  have no: "\<forall>a m b. ''main'' = a @ m @ b \<longrightarrow> \<not> isBranchCode m"
    using branchCodeMatch_None[OF m] by blast
  have t: "trace mainWorld = []" by (simp add: mainWorld_def batchWorld_def)
  from branch_code_gate[OF br, of batchInput] no
  have "addComments mainWorld batchInput =
              (\<lparr>success = False, message = ''Failed to extract branch code'',
                branchCode = None, filesModified = None,
                error = errorOf (extractBranchCode ''main'')\<rparr>,
               mainWorld\<lparr>trace := trace mainWorld @ [GetCurrentBranch]\<rparr>)"
    by blast
  with br no t have first:
    "\<not> success (fst (addComments mainWorld batchInput))
   \<and> message (fst (addComments mainWorld batchInput)) = ''Failed to extract branch code''
   \<and> trace (snd (addComments mainWorld batchInput)) = [GetCurrentBranch]
   \<and> files (snd (addComments mainWorld batchInput)) = files mainWorld"
    by simp
  have br2: "branch batchWorld = Inr ''feature/FLYF-228-login''" by (simp add: batchWorld_def)
  have code: "branchCodeOf (extractBranchCode ''feature/FLYF-228-login'') = Some ''FLYF-228''"
    by code_simp
  have rep: "branchCode (fst (addComments batchWorld batchInput)) = Some ''FLYF-228''"
    by code_simp
  have c: "comment batchInput = ''checked''" by (simp add: batchInput_def)
  from branch_code_gate[OF br2, of batchInput] code
  have second: "(\<forall>ch \<in> set ''FLYF-228''. \<not> patternSyntax ch)
   \<and> (\<forall>p. files (snd (addComments batchWorld batchInput)) p = files batchWorld p
           \<or> annotated ''FLYF-228'' ''checked'' (files batchWorld p)
                (files (snd (addComments batchWorld batchInput)) p))"
    unfolding c by blast
  from second have third: "\<not> list_ex patternSyntax ''FLYF-228''
   \<and> (files (snd (addComments batchWorld batchInput)) ''b.js'' = files batchWorld ''b.js''
       \<or> annotated ''FLYF-228'' ''checked'' (files batchWorld ''b.js'')
            (files (snd (addComments batchWorld batchInput)) ''b.js''))"
    unfolding list_ex_iff by blast
  from br m first br2 code rep third show ?thesis by blast
qed

text \<open>
  C3 at the input that breaks it: a request with the source \<open>file\<close> and no file path, on
  a tree with unstaged changes. The call fetches the unstaged diff and annotates a file
  of it, and reports success.
\<close>

theorem file_source_without_path:
  "source noPathInput = Some File \<and> filePath noPathInput = None
   \<and> success (fst (addComments batchWorld noPathInput))
   \<and> filesModified (fst (addComments batchWorld noPathInput)) = Some [''b.js'']
   \<and> trace (snd (addComments batchWorld noPathInput))
       = [GetCurrentBranch, GetUnstagedDiff, ReadFile ''a.js'', ReadFile ''b.js'', WriteFile ''b.js'']
   \<and> files batchWorld ''b.js'' = Some ''first\<newline>second\<newline>third''
   \<and> files (snd (addComments batchWorld noPathInput)) ''b.js''
       = Some ''first\<newline>// FLYF-228: checked\<newline>second\<newline>third''"
proof -
  have a: "source noPathInput = Some File \<and> filePath noPathInput = None"
    by (simp add: noPathInput_def)
  have b: "success (fst (addComments batchWorld noPathInput))" by code_simp
  have c: "filesModified (fst (addComments batchWorld noPathInput)) = Some [''b.js'']"
    by code_simp
  have d: "trace (snd (addComments batchWorld noPathInput))
       = [GetCurrentBranch, GetUnstagedDiff, ReadFile ''a.js'', ReadFile ''b.js'', WriteFile ''b.js'']"
    by code_simp
  have e: "files batchWorld ''b.js'' = Some ''first\<newline>second\<newline>third''"
    by (simp add: batchWorld_def)
  have f: "files (snd (addComments batchWorld noPathInput)) ''b.js''
       = Some ''first\<newline>// FLYF-228: checked\<newline>second\<newline>third''"
    by code_simp
  from a b c d e f show ?thesis by blast
qed

theorem file_source_without_path_witness:
  "success (fst (addComments batchWorld noPathInput))
   \<and> filesModified (fst (addComments batchWorld noPathInput)) = Some [''b.js'']
   \<and> files (snd (addComments batchWorld noPathInput)) ''b.js'' \<noteq> files batchWorld ''b.js''"
  using file_source_without_path by simp

section \<open>The numbers of the diff locator\<close>










section \<open>The hunk header pattern on the headers of a diff tool\<close>

lemma stripPrefix_append: "stripPrefix p (p @ s) = Some s"
  by (induction p) auto










section \<open>The steps of the diff locator\<close>






lemma not_plus_not_header: "\<not> startsWith l ''+'' \<Longrightarrow> \<not> startsWith l ''+++ b/'' \<and> \<not> startsWith l ''+++''"
  by (cases l) auto












section \<open>The map the diff locator returns\<close>




subsection \<open>The order of the keys\<close>






subsection \<open>The order of the line numbers\<close>







subsection \<open>Where the line numbers come from\<close>




subsection \<open>The lines between two headers\<close>





subsection \<open>The body of a hunk\<close>










end
